theory Spec2Isabelle
  imports Complex_Main "HOL-Library.While_Combinator" "HOL-Library.Multiset"
begin

section \<open>Floating-point numbers\<close>

text \<open>
  The builder of \<^verbatim>\<open>bvh.cpp\<close> computes on C++ \<^verbatim>\<open>float\<close> values: IEEE 754 binary32,
  rounding to nearest with ties to even. A value is \<open>-inf\<close>, a finite number, \<open>+inf\<close>
  or NaN. The finite numbers are carried as rationals, and every arithmetic operation
  rounds its exact result with \<open>rnd\<close>, so that a result is again a binary32 number, an
  infinity on overflow, or NaN. The two zeros are one value: they compare equal, and
  no operation of the model tells them apart (nothing here divides by a computed
  value).
  The 32-bit counters and indices (\<^verbatim>\<open>u32\<close>, \<^verbatim>\<open>s32\<close>) are embedded as \<open>nat\<close> and \<open>int\<close>;
  for fewer than \<open>2^31\<close> primitives none of them leaves its range, and the one
  subtraction on \<^verbatim>\<open>u32\<close> is written with its wrap-around.
\<close>

datatype f32 = NInf | Fin rat | PInf | NaN

definition FLT_MAX :: rat where
  "FLT_MAX = 340282346638528859811704183484516925440"

text \<open>
  \<open>bits n\<close> is the number of binary digits of \<open>n\<close>, \<open>ilog2 a\<close> the exponent \<open>e\<close> with
  \<open>2^e \<le> a < 2^(e+1)\<close> of a positive rational, and \<open>round_even\<close> rounds to the nearest
  integer, a tie to the even one. \<open>rnd x\<close> keeps 24 significant bits of \<open>x\<close> (fewer
  below \<open>2^-126\<close>, where the spacing stays \<open>2^-149\<close>) and gives an infinity when the
  rounded magnitude exceeds \<open>FLT_MAX\<close>.
\<close>

function bits :: "int \<Rightarrow> int" where
  "bits n = (if n \<le> 0 then 0 else 1 + bits (n div 2))"
  by pat_completeness auto
termination by (relation "measure nat") auto

declare bits.simps [simp del]

definition pow2 :: "int \<Rightarrow> rat" where
  "pow2 e = (if 0 \<le> e then 2 ^ nat e else 1 / 2 ^ nat (- e))"

definition ilog2 :: "rat \<Rightarrow> int" where
  "ilog2 a = (let e0 = bits (fst (quotient_of a)) - bits (snd (quotient_of a))
              in if pow2 e0 \<le> a then e0 else e0 - 1)"

definition round_even :: "rat \<Rightarrow> int" where
  "round_even y = (let n = \<lfloor>y\<rfloor>; r = y - of_int n
                   in if r < 1 / 2 then n else if 1 / 2 < r then n + 1
                      else if even n then n else n + 1)"

definition rnd :: "rat \<Rightarrow> f32" where
  "rnd x = (if x = 0 then Fin 0
            else let a = \<bar>x\<bar>;
                     q = max (ilog2 a) (- 126) - 23;
                     r = of_int (round_even (a / pow2 q)) * pow2 q
                 in if FLT_MAX < r then (if x < 0 then NInf else PInf)
                    else Fin (if x < 0 then - r else r))"

fun fneg :: "f32 \<Rightarrow> f32" where
  "fneg (Fin a) = Fin (- a)"
| "fneg PInf = NInf"
| "fneg NInf = PInf"
| "fneg NaN = NaN"

fun fadd :: "f32 \<Rightarrow> f32 \<Rightarrow> f32" where
  "fadd (Fin a) (Fin b) = rnd (a + b)"
| "fadd NaN _ = NaN"
| "fadd _ NaN = NaN"
| "fadd PInf NInf = NaN"
| "fadd NInf PInf = NaN"
| "fadd PInf _ = PInf"
| "fadd _ PInf = PInf"
| "fadd NInf _ = NInf"
| "fadd _ NInf = NInf"

definition fsub :: "f32 \<Rightarrow> f32 \<Rightarrow> f32" where
  "fsub a b = fadd a (fneg b)"

fun fmul :: "f32 \<Rightarrow> f32 \<Rightarrow> f32" where
  "fmul (Fin a) (Fin b) = rnd (a * b)"
| "fmul NaN _ = NaN"
| "fmul _ NaN = NaN"
| "fmul PInf (Fin b) = (if b = 0 then NaN else if 0 < b then PInf else NInf)"
| "fmul NInf (Fin b) = (if b = 0 then NaN else if 0 < b then NInf else PInf)"
| "fmul (Fin a) PInf = (if a = 0 then NaN else if 0 < a then PInf else NInf)"
| "fmul (Fin a) NInf = (if a = 0 then NaN else if 0 < a then NInf else PInf)"
| "fmul PInf PInf = PInf"
| "fmul PInf NInf = NInf"
| "fmul NInf PInf = NInf"
| "fmul NInf NInf = PInf"

text \<open>Division by the constant \<^verbatim>\<open>2.f\<close>, and the conversion of an integer.\<close>

fun fhalf :: "f32 \<Rightarrow> f32" where
  "fhalf (Fin a) = rnd (a / 2)"
| "fhalf PInf = PInf"
| "fhalf NInf = NInf"
| "fhalf NaN = NaN"

definition i2f :: "int \<Rightarrow> f32" where
  "i2f n = rnd (of_int n)"

text \<open>
  The order on the values is total: \<open>-inf\<close>, the finite numbers in their order, \<open>+inf\<close>,
  and NaN above them all. On numbers and infinities it is the order of the machine.
  The comparisons \<^verbatim>\<open><\<close>, \<^verbatim>\<open><=\<close> and \<^verbatim>\<open>>\<close> of the code are \<open>flt\<close>, \<open>fle\<close> and \<open>fgt\<close>: they
  are false as soon as one operand is NaN.
\<close>

instantiation f32 :: linorder
begin

fun less_eq_f32 :: "f32 \<Rightarrow> f32 \<Rightarrow> bool" where
  "less_eq_f32 NInf _ = True"
| "less_eq_f32 _ NaN = True"
| "less_eq_f32 (Fin a) (Fin b) = (a \<le> b)"
| "less_eq_f32 (Fin a) PInf = True"
| "less_eq_f32 PInf PInf = True"
| "less_eq_f32 _ _ = False"

definition less_f32 :: "f32 \<Rightarrow> f32 \<Rightarrow> bool" where
  "less_f32 a b \<longleftrightarrow> a \<le> b \<and> \<not> b \<le> a"

instance
proof
  fix x y z :: f32
  show "(x < y) = (x \<le> y \<and> \<not> y \<le> x)" by (simp add: less_f32_def)
  show "x \<le> x" by (cases x) simp_all
  show "x \<le> y \<Longrightarrow> y \<le> z \<Longrightarrow> x \<le> z" by (cases x; cases y; cases z) simp_all
  show "x \<le> y \<Longrightarrow> y \<le> x \<Longrightarrow> x = y" by (cases x; cases y) simp_all
  show "x \<le> y \<or> y \<le> x" by (cases x; cases y) auto
qed

end

definition flt :: "f32 \<Rightarrow> f32 \<Rightarrow> bool" where
  "flt a b \<longleftrightarrow> a \<noteq> NaN \<and> b \<noteq> NaN \<and> a < b"

definition fle :: "f32 \<Rightarrow> f32 \<Rightarrow> bool" where
  "fle a b \<longleftrightarrow> a \<noteq> NaN \<and> b \<noteq> NaN \<and> a \<le> b"

definition fgt :: "f32 \<Rightarrow> f32 \<Rightarrow> bool" where
  "fgt a b \<longleftrightarrow> flt b a"

section \<open>Vectors and boxes\<close>

text \<open>
  Modelled from the spec: \<^verbatim>\<open>vec3f\<close> and \<^verbatim>\<open>aabb\<close> of \<^verbatim>\<open>base/math.hpp\<close> are not part of the
  sources. The vector operations work component by component; \<open>vmin\<close> and \<open>vmax\<close> are
  the minimum and the maximum in the order above. \<open>aabb_of lo hi\<close> is the constructor
  \<^verbatim>\<open>aabb(float, float)\<close>, \<open>compose\<close> the union of two boxes, and \<open>halfarea\<close> is
  \<open>dx*dy + dy*dz + dz*dx\<close> of the extents, computed in this order.
\<close>

datatype vec3f = Vec3f f32 f32 f32

fun vidx :: "vec3f \<Rightarrow> nat \<Rightarrow> f32" where
  "vidx (Vec3f x y z) i = (if i = 0 then x else if i = 1 then y else z)"

fun vsplat :: "f32 \<Rightarrow> vec3f" where
  "vsplat a = Vec3f a a a"

fun vadd :: "vec3f \<Rightarrow> vec3f \<Rightarrow> vec3f" where
  "vadd (Vec3f a b c) (Vec3f x y z) = Vec3f (fadd a x) (fadd b y) (fadd c z)"

fun vsub :: "vec3f \<Rightarrow> vec3f \<Rightarrow> vec3f" where
  "vsub (Vec3f a b c) (Vec3f x y z) = Vec3f (fsub a x) (fsub b y) (fsub c z)"

fun vscale :: "f32 \<Rightarrow> vec3f \<Rightarrow> vec3f" where
  "vscale s (Vec3f x y z) = Vec3f (fmul s x) (fmul s y) (fmul s z)"

fun vhalf :: "vec3f \<Rightarrow> vec3f" where
  "vhalf (Vec3f x y z) = Vec3f (fhalf x) (fhalf y) (fhalf z)"

fun vmin :: "vec3f \<Rightarrow> vec3f \<Rightarrow> vec3f" where
  "vmin (Vec3f a b c) (Vec3f x y z) = Vec3f (min a x) (min b y) (min c z)"

fun vmax :: "vec3f \<Rightarrow> vec3f \<Rightarrow> vec3f" where
  "vmax (Vec3f a b c) (Vec3f x y z) = Vec3f (max a x) (max b y) (max c z)"

record aabb =
  pmin :: vec3f
  pmax :: vec3f

definition aabb_of :: "f32 \<Rightarrow> f32 \<Rightarrow> aabb" where
  "aabb_of lo hi = \<lparr>pmin = vsplat lo, pmax = vsplat hi\<rparr>"

definition compose :: "aabb \<Rightarrow> aabb \<Rightarrow> aabb" where
  "compose a b = \<lparr>pmin = vmin (pmin a) (pmin b), pmax = vmax (pmax a) (pmax b)\<rparr>"

definition halfarea :: "aabb \<Rightarrow> f32" where
  "halfarea b = (let e = vsub (pmax b) (pmin b)
                 in fadd (fadd (fmul (vidx e 0) (vidx e 1)) (fmul (vidx e 1) (vidx e 2)))
                      (fmul (vidx e 2) (vidx e 0)))"

section \<open>Primitives\<close>

datatype primtype = TRI | INTERSECTOR

text \<open>
  Modelled from the spec: the struct \<^verbatim>\<open>primitive\<close> of \<^verbatim>\<open>bvh.hpp\<close> is not part of the
  sources. It has a type tag, the vertex array \<^verbatim>\<open>v[3]\<close> (for a sub-intersector
  \<^verbatim>\<open>v[0]\<close> and \<^verbatim>\<open>v[1]\<close> are the corners of its box) and the handle \<^verbatim>\<open>isec\<close>.
\<close>

record primitive =
  ptype :: primtype
  v0 :: vec3f
  v1 :: vec3f
  v2 :: vec3f
  isec :: nat

definition getaabb :: "primitive \<Rightarrow> aabb" where
  "getaabb h = (if ptype h = TRI
                then \<lparr>pmin = vmin (vmin (v0 h) (v1 h)) (v2 h), pmax = vmax (vmax (v0 h) (v1 h)) (v2 h)\<rparr>
                else \<lparr>pmin = v0 h, pmax = v1 h\<rparr>)"

text \<open>
  The constructor of \<^verbatim>\<open>struct centroid\<close>: \<^verbatim>\<open>1.f/3.f*(v[0]+v[1]+v[2])\<close> for a triangle,
  \<^verbatim>\<open>(v[0]+v[1])/2.f\<close> otherwise. The factor \<^verbatim>\<open>1.f/3.f\<close> is the binary32 number nearest to a
  third.
\<close>

definition centroid :: "primitive \<Rightarrow> vec3f" where
  "centroid h = (if ptype h = TRI
                 then vscale (rnd (1 / 3)) (vadd (vadd (v0 h) (v1 h)) (v2 h))
                 else vhalf (vadd (v0 h) (v1 h)))"

section \<open>Build options\<close>

record config =
  maxprimitivenum :: int
  sahintersectioncost :: int
  sahtraversalcost :: int
  bvhstatitics :: int

definition default_config :: config where
  "default_config = \<lparr>maxprimitivenum = 8, sahintersectioncost = 4, sahtraversalcost = 4, bvhstatitics = 1\<rparr>"

text \<open>The ranges that the \<^verbatim>\<open>VAR\<close> declarations give to the options.\<close>

definition config_ok :: "config \<Rightarrow> bool" where
  "config_ok cfg \<longleftrightarrow> 1 \<le> maxprimitivenum cfg \<and> maxprimitivenum cfg \<le> 16
     \<and> 1 \<le> sahintersectioncost cfg \<and> sahintersectioncost cfg \<le> 16
     \<and> 1 \<le> sahtraversalcost cfg \<and> sahtraversalcost cfg \<le> 16"

section \<open>Output records\<close>

text \<open>
  Modelled from the spec: \<^verbatim>\<open>waldtriangle\<close> of \<^verbatim>\<open>bvhinternal.hpp\<close> is not part of the
  sources. The fields \<^verbatim>\<open>n\<close>, \<^verbatim>\<open>bn\<close>, \<^verbatim>\<open>cn\<close>, \<^verbatim>\<open>vertk\<close>, \<^verbatim>\<open>nd\<close>, \<^verbatim>\<open>k\<close> and \<^verbatim>\<open>sign\<close> that
  \<^verbatim>\<open>maketriangle\<close> fills are functions of the three vertices of the triangle alone;
  the record keeps the vertices in their place (\<open>w_verts\<close>, \<open>None\<close> in a slot that was
  never written), next to the fields \<^verbatim>\<open>id\<close>, \<^verbatim>\<open>matid\<close> and \<^verbatim>\<open>num\<close>.
\<close>

record waldtriangle =
  w_verts :: "(vec3f \<times> vec3f \<times> vec3f) option"
  w_id :: nat
  w_matid :: nat
  w_num :: int

datatype nodeflag = UNSET | NONLEAF | TRILEAF | ISECLEAF

datatype nodeptr = NOPTR | ISECPTR nat | ACCPTR nat

text \<open>
  Modelled from the spec: \<^verbatim>\<open>intersector::node\<close> of \<^verbatim>\<open>bvhinternal.hpp\<close> is not part of
  the sources. A node has a box, a flag, and what \<^verbatim>\<open>setaxis\<close>, \<^verbatim>\<open>setoffset\<close> and
  \<^verbatim>\<open>setptr\<close> store. A slot that was never written has the flag \<open>UNSET\<close>.
\<close>

record node =
  n_box :: aabb
  n_flag :: nodeflag
  n_axis :: nat
  n_offset :: nat
  n_ptr :: nodeptr

definition empty_box :: aabb where
  "empty_box = aabb_of (Fin FLT_MAX) (Fin (- FLT_MAX))"

definition fresh_node :: node where
  "fresh_node = \<lparr>n_box = empty_box, n_flag = UNSET, n_axis = 0, n_offset = 0, n_ptr = NOPTR\<rparr>"

definition fresh_wald :: waldtriangle where
  "fresh_wald = \<lparr>w_verts = None, w_id = 0, w_matid = 0, w_num = 0\<rparr>"

section \<open>The compiler state\<close>

definition ONLEFT :: nat where [simp]: "ONLEFT = 0"
definition ONRIGHT :: nat where [simp]: "ONRIGHT = 1"
definition OTHERAXISNUM :: nat where [simp]: "OTHERAXISNUM = 2"

record compiler =
  istri :: "bool list"
  pos :: "nat list"
  ids :: "nat list list"
  tmpids :: "nat list"
  boxes :: "aabb list"
  rlboxes :: "aabb list"
  prims :: "primitive list"
  acc :: "waldtriangle list"
  root :: "node list"
  c_n :: int
  accnum :: int
  currid :: nat
  scenebox :: aabb
  leafnum :: nat
  nodenum :: nat

definition new_compiler :: compiler where
  "new_compiler = \<lparr>istri = [], pos = [], ids = [[], [], []], tmpids = [], boxes = [], rlboxes = [],
     prims = [], acc = [], root = [], c_n = 0, accnum = 0, currid = 0, scenebox = empty_box,
     leafnum = 0, nodenum = 0\<rparr>"

text \<open>
  Modelled from the spec: \<^verbatim>\<open>quicksort\<close> of \<^verbatim>\<open>base/algorithm.hpp\<close> is not part of the
  sources. It sorts the indices ascending by the centroid coordinate, stable by
  original index.
\<close>

definition quicksort :: "(nat \<Rightarrow> f32) \<Rightarrow> nat list \<Rightarrow> nat list" where
  "quicksort key xs = sort_key key xs"

definition injection :: "compiler \<Rightarrow> primitive list \<Rightarrow> nat \<Rightarrow> compiler" where
  "injection c soup primnum =
     (let centroids = map (\<lambda>i. centroid (soup ! i)) [0..<primnum];
          bxs = map (\<lambda>i. getaabb (soup ! i)) [0..<primnum];
          sb = fold (\<lambda>b s. compose s b) bxs (aabb_of (Fin FLT_MAX) (Fin (- FLT_MAX)));
          idl = [0..<primnum]
      in c\<lparr>root := replicate (2 * primnum + 1) fresh_node,
           ids := [quicksort (\<lambda>a. vidx (centroids ! a) 0) idl,
                   quicksort (\<lambda>a. vidx (centroids ! a) 1) idl,
                   quicksort (\<lambda>a. vidx (centroids ! a) 2) idl],
           pos := replicate primnum 0,
           tmpids := replicate primnum 0,
           boxes := bxs,
           rlboxes := replicate primnum empty_box,
           istri := map (\<lambda>i. ptype (soup ! i) = TRI) [0..<primnum],
           c_n := int primnum,
           scenebox := sb,
           prims := soup,
           acc := replicate primnum fresh_wald\<rparr>)"

section \<open>The sweep\<close>

record partition =
  part_boxes :: "aabb list"
  part_cost :: f32
  part_axis :: nat
  part_first :: "int list"
  part_last :: "int list"

definition new_partition :: "int \<Rightarrow> int \<Rightarrow> nat \<Rightarrow> partition" where
  "new_partition f l d = \<lparr>part_boxes = [aabb_of (Fin FLT_MAX) (Fin (- FLT_MAX)), aabb_of (Fin FLT_MAX) (Fin (- FLT_MAX))],
     part_cost = Fin FLT_MAX, part_axis = d, part_first = [f, f], part_last = [l, l]\<rparr>"

definition idat :: "compiler \<Rightarrow> nat \<Rightarrow> int \<Rightarrow> nat" where
  "idat c axis j = ids c ! axis ! nat j"

definition rl_step :: "nat \<Rightarrow> int \<Rightarrow> compiler \<Rightarrow> compiler" where
  "rl_step axis j c =
     (let i = idat c axis j;
          r1 = (rlboxes c)[i := boxes c ! i];
          r2 = r1[i := compose (r1 ! i) (r1 ! idat c axis (j + 1))]
      in c\<lparr>rlboxes := r2\<rparr>)"

definition inclusion :: "nat \<Rightarrow> compiler \<Rightarrow> int \<Rightarrow> int \<Rightarrow> compiler" where
  "inclusion axis c first last' =
     fold (rl_step axis) (rev [first..last' - 1])
       (c\<lparr>rlboxes := (rlboxes c)[idat c axis last' := boxes c ! idat c axis last']\<rparr>)"

record sweepstate =
  sw_box :: aabb
  sw_n :: int
  sw_part :: partition
  sw_alltris :: bool

definition sweep_cost :: "compiler \<Rightarrow> nat \<Rightarrow> int \<Rightarrow> int \<Rightarrow> sweepstate \<Rightarrow> f32" where
  "sweep_cost c axis primnum j st =
     (let left = idat c axis j; right = idat c axis (j + 1);
          box = compose (sw_box st) (boxes c ! left);
          larea = halfarea box; rarea = halfarea (rlboxes c ! right)
      in fadd (fmul larea (i2f (sw_n st))) (fmul rarea (i2f (primnum - sw_n st))))"

definition sweep_step :: "compiler \<Rightarrow> nat \<Rightarrow> int \<Rightarrow> int \<Rightarrow> sweepstate \<Rightarrow> sweepstate" where
  "sweep_step c axis primnum j st =
     (let left = idat c axis j;
          box = compose (sw_box st) (boxes c ! left);
          cost = sweep_cost c axis primnum j st;
          st1 = st\<lparr>sw_box := box, sw_n := sw_n st + 1,
                   sw_alltris := (if \<not> istri c ! left then False else sw_alltris st)\<rparr>
      in if fgt cost (part_cost (sw_part st)) then st1
         else st1\<lparr>sw_part := (sw_part st)\<lparr>part_cost := cost,
                   part_last := (part_last (sw_part st))[ONLEFT := j],
                   part_first := (part_first (sw_part st))[ONRIGHT := j + 1],
                   part_boxes := [box, rlboxes c ! idat c axis (j + 1)]\<rparr>\<rparr>)"

definition sweep_scan :: "nat \<Rightarrow> compiler \<Rightarrow> int \<Rightarrow> int \<Rightarrow> sweepstate" where
  "sweep_scan axis c first last' =
     fold (sweep_step c axis (last' - first + 1)) [first..last' - 1]
       \<lparr>sw_box = aabb_of (Fin FLT_MAX) (Fin (- FLT_MAX)), sw_n = 1,
        sw_part = (new_partition first last' axis)\<lparr>part_cost := Fin FLT_MAX\<rparr>, sw_alltris = True\<rparr>"

definition leaf_partition :: "partition \<Rightarrow> f32 \<Rightarrow> aabb \<Rightarrow> partition" where
  "leaf_partition part cost box = part\<lparr>part_cost := cost, part_last := [-1, -1],
     part_first := [-1, -1], part_boxes := [box, box]\<rparr>"

definition sweep :: "config \<Rightarrow> nat \<Rightarrow> compiler \<Rightarrow> int \<Rightarrow> int \<Rightarrow> partition \<times> compiler" where
  "sweep cfg axis c first last' =
     (let c1 = inclusion axis c first last';
          primnum = last' - first + 1;
          st = sweep_scan axis c1 first last';
          part = sw_part st;
          i = idat c1 axis last'
      in if \<not> sw_alltris st \<or> \<not> istri c1 ! i then (part, c1)
         else
           let box = compose (sw_box st) (boxes c1 ! i);
               harea = halfarea box;
               part1 = part\<lparr>part_cost := fadd (fmul (part_cost part) (i2f (sahintersectioncost cfg)))
                                            (fmul (i2f (sahtraversalcost cfg)) harea)\<rparr>
           in if primnum > maxprimitivenum cfg then (part1, c1)
              else
                let cost = fmul (i2f (sahintersectioncost cfg * primnum)) harea
                in if fle cost (part_cost part1) then (leaf_partition part1 cost box, c1)
                   else (part1, c1))"

section \<open>Node emission\<close>

record segment =
  seg_first :: int
  seg_last :: int
  seg_id :: nat
  seg_box :: aabb

datatype fault = StackOverflow | NodeOutOfRange | AssertionFailed

definition maketriangle :: "primitive \<Rightarrow> waldtriangle \<Rightarrow> nat \<Rightarrow> nat \<Rightarrow> waldtriangle" where
  "maketriangle t w i matid = w\<lparr>w_verts := Some (v0 t, v1 t, v2 t), w_id := i, w_matid := matid\<rparr>"

definition u32_sub :: "nat \<Rightarrow> nat \<Rightarrow> nat" where
  "u32_sub a b = nat ((int a - int b) mod 2 ^ 32)"

definition makenode :: "compiler \<Rightarrow> segment \<Rightarrow> nat \<Rightarrow> fault + compiler" where
  "makenode c data axis =
     (if seg_id data \<ge> length (root c) then Inl NodeOutOfRange
      else Inr (c\<lparr>root := (root c)[seg_id data := (root c ! seg_id data)
                     \<lparr>n_box := seg_box data, n_flag := NONLEAF, n_axis := axis,
                      n_offset := u32_sub (currid c + 1) (seg_id data)\<rparr>],
                  nodenum := nodenum c + 1\<rparr>))"

definition leaf_step :: "int \<Rightarrow> int \<Rightarrow> fault + compiler \<Rightarrow> fault + compiler" where
  "leaf_step n j r =
     (case r of Inl e \<Rightarrow> Inl e
      | Inr c \<Rightarrow>
          let i = idat c 0 j
          in if ptype (prims c ! i) \<noteq> TRI then Inl AssertionFailed
             else Inr (c\<lparr>acc := (acc c)[nat (accnum c) :=
                            (maketriangle (prims c ! i) (acc c ! nat (accnum c)) i 0)\<lparr>w_num := n\<rparr>],
                         accnum := accnum c + 1\<rparr>))"

definition makeleaf :: "compiler \<Rightarrow> segment \<Rightarrow> fault + compiler" where
  "makeleaf c data =
     (let n = seg_last data - seg_first data + 1;
          first = prims c ! idat c 0 (seg_first data)
      in if seg_id data \<ge> length (root c) then Inl NodeOutOfRange
         else
           let nd = (root c ! seg_id data)\<lparr>n_box := seg_box data\<rparr>
           in if ptype first = INTERSECTOR
              then (if n \<noteq> 1 then Inl AssertionFailed
                    else Inr (c\<lparr>root := (root c)[seg_id data := nd\<lparr>n_flag := ISECLEAF, n_ptr := ISECPTR (isec first)\<rparr>],
                                leafnum := leafnum c + 1, nodenum := nodenum c + 1\<rparr>))
              else
                (case fold (leaf_step n) [seg_first data..seg_last data]
                        (Inr (c\<lparr>root := (root c)[seg_id data := nd\<lparr>n_flag := TRILEAF, n_ptr := ACCPTR (nat (accnum c))\<rparr>]\<rparr>))
                 of Inl e \<Rightarrow> Inl e
                  | Inr c1 \<Rightarrow> Inr (c1\<lparr>leafnum := leafnum c1 + 1, nodenum := nodenum c1 + 1\<rparr>)))"

definition aabbeps :: f32 where
  "aabbeps = rnd (1 / 1000000)"

definition growbox :: "nat \<Rightarrow> compiler \<Rightarrow> compiler" where
  "growbox i c = c\<lparr>root := (root c)[i := (root c ! i)
       \<lparr>n_box := \<lparr>pmin = vsub (pmin (n_box (root c ! i))) (vsplat aabbeps),
                  pmax = vadd (pmax (n_box (root c ! i))) (vsplat aabbeps)\<rparr>\<rparr>]\<rparr>"

definition growboxes :: "compiler \<Rightarrow> compiler" where
  "growboxes c = fold growbox [0..<nat (2 * c_n c - 1)] c"

section \<open>The driver\<close>

text \<open>
  The two nested loops of \<^verbatim>\<open>compiler::compile\<close> are one transition function on the
  record below. \<open>d_node\<close> is \<open>Some node\<close> inside the inner \<^verbatim>\<open>for (;;)\<close> and \<open>None\<close>
  between two pops; \<open>d_stack\<close> holds \<^verbatim>\<open>stack[0..stacksz)\<close> with the top first. A write
  past the 64 entries of \<^verbatim>\<open>stack\<close>, a write past the node array and a failed
  \<^verbatim>\<open>assert\<close> stop the run with a fault.
\<close>

record driver =
  d_comp :: compiler
  d_node :: "segment option"
  d_stack :: "segment list"
  d_fault :: "fault option"

definition best_partition :: "config \<Rightarrow> compiler \<Rightarrow> segment \<Rightarrow> partition \<times> compiler" where
  "best_partition cfg c nd =
     (let r0 = sweep cfg 0 c (seg_first nd) (seg_last nd);
          r1 = sweep cfg 1 (snd r0) (seg_first nd) (seg_last nd);
          best1 = (if flt (part_cost (fst r1)) (part_cost (fst r0)) then fst r1 else fst r0);
          r2 = sweep cfg 2 (snd r1) (seg_first nd) (seg_last nd);
          best2 = (if flt (part_cost (fst r2)) (part_cost best1) then fst r2 else best1)
      in (best2, snd r2))"

definition set_pos :: "nat \<Rightarrow> nat \<Rightarrow> int \<Rightarrow> compiler \<Rightarrow> compiler" where
  "set_pos axis side j c = c\<lparr>pos := (pos c)[idat c axis j := side]\<rparr>"

definition mark_pos :: "partition \<Rightarrow> compiler \<Rightarrow> compiler" where
  "mark_pos best c =
     fold (set_pos (part_axis best) ONRIGHT) [part_first best ! ONRIGHT..part_last best ! ONRIGHT]
       (fold (set_pos (part_axis best) ONLEFT) [part_first best ! ONLEFT..part_last best ! ONLEFT] c)"

definition otheraxis :: "nat list" where
  "otheraxis = [1, 2, 0, 1]"

definition set_id :: "compiler \<Rightarrow> nat \<Rightarrow> int \<Rightarrow> nat \<Rightarrow> compiler" where
  "set_id c axis j x = c\<lparr>ids := (ids c)[axis := (ids c ! axis)[nat j := x]]\<rparr>"

record reorderstate =
  ro_comp :: compiler
  leftnum :: int
  rightnum :: int

definition reorder_scan :: "nat \<Rightarrow> int \<Rightarrow> int \<Rightarrow> reorderstate \<Rightarrow> reorderstate" where
  "reorder_scan d0 first j s =
     (if pos (ro_comp s) ! idat (ro_comp s) d0 j = ONLEFT
      then s\<lparr>ro_comp := set_id (ro_comp s) d0 (first + leftnum s) (idat (ro_comp s) d0 j),
             leftnum := leftnum s + 1\<rparr>
      else s\<lparr>ro_comp := (ro_comp s)\<lparr>tmpids := (tmpids (ro_comp s))[nat (rightnum s) := idat (ro_comp s) d0 j]\<rparr>,
             rightnum := rightnum s + 1\<rparr>)"

definition reorder_copy :: "nat \<Rightarrow> int \<Rightarrow> int \<Rightarrow> int \<Rightarrow> compiler \<Rightarrow> compiler" where
  "reorder_copy d0 first lnum j c = set_id c d0 j (tmpids c ! nat (j - lnum - first))"

definition reorder_axis :: "nat \<Rightarrow> segment \<Rightarrow> compiler \<Rightarrow> reorderstate" where
  "reorder_axis d0 nd c =
     (let s = fold (reorder_scan d0 (seg_first nd)) [seg_first nd..seg_last nd]
                \<lparr>ro_comp = c, leftnum = 0, rightnum = 0\<rparr>
      in s\<lparr>ro_comp := fold (reorder_copy d0 (seg_first nd) (leftnum s))
                            [seg_first nd + leftnum s..seg_last nd] (ro_comp s)\<rparr>)"

definition reorder_other :: "partition \<Rightarrow> segment \<Rightarrow> nat \<Rightarrow> reorderstate \<Rightarrow> reorderstate" where
  "reorder_other best nd i s = reorder_axis (otheraxis ! (part_axis best + i)) nd (ro_comp s)"

definition reorder :: "partition \<Rightarrow> segment \<Rightarrow> compiler \<Rightarrow> reorderstate" where
  "reorder best nd c =
     fold (reorder_other best nd) [0..<OTHERAXISNUM] \<lparr>ro_comp = c, leftnum = 0, rightnum = 0\<rparr>"

definition child_segment :: "partition \<Rightarrow> nat \<Rightarrow> nat \<Rightarrow> segment" where
  "child_segment best cur p = \<lparr>seg_first = part_first best ! p, seg_last = part_last best ! p,
     seg_id = cur + p + 1, seg_box = part_boxes best ! p\<rparr>"

definition set_fault :: "driver \<Rightarrow> fault \<Rightarrow> driver" where
  "set_fault d e = d\<lparr>d_fault := Some e\<rparr>"

definition emit_leaf :: "driver \<Rightarrow> compiler \<Rightarrow> segment \<Rightarrow> driver" where
  "emit_leaf d c nd =
     (case makeleaf c nd of Inl e \<Rightarrow> set_fault d e
      | Inr c1 \<Rightarrow> d\<lparr>d_comp := c1, d_node := None\<rparr>)"

definition push_children :: "driver \<Rightarrow> partition \<Rightarrow> reorderstate \<Rightarrow> driver" where
  "push_children d best r =
     (let p0 = (if rightnum r > leftnum r then ONLEFT else ONRIGHT);
          p1 = (if rightnum r > leftnum r then ONRIGHT else ONLEFT)
      in if length (d_stack d) \<ge> 64 then set_fault d StackOverflow
         else d\<lparr>d_comp := (ro_comp r)\<lparr>currid := currid (ro_comp r) + 2\<rparr>,
                d_stack := child_segment best (currid (ro_comp r)) p1 # d_stack d,
                d_node := Some (child_segment best (currid (ro_comp r)) p0)\<rparr>)"

definition split_node :: "driver \<Rightarrow> compiler \<Rightarrow> segment \<Rightarrow> partition \<Rightarrow> driver" where
  "split_node d c nd best =
     (case makenode c nd (part_axis best) of Inl e \<Rightarrow> set_fault d e
      | Inr c1 \<Rightarrow> push_children d best (reorder best nd (mark_pos best c1)))"

definition inner_step :: "config \<Rightarrow> driver \<Rightarrow> segment \<Rightarrow> driver" where
  "inner_step cfg d nd =
     (if seg_last nd - seg_first nd = 0 then emit_leaf d (d_comp d) nd
      else
        let r = best_partition cfg (d_comp d) nd
        in if part_first (fst r) ! ONLEFT = -1 then emit_leaf d (snd r) nd
           else split_node d (snd r) nd (fst r))"

definition cstep :: "config \<Rightarrow> driver \<Rightarrow> driver" where
  "cstep cfg d =
     (case d_node d of
        Some nd \<Rightarrow> inner_step cfg d nd
      | None \<Rightarrow>
          (case d_stack d of
             [] \<Rightarrow> d
           | nd # rest \<Rightarrow> d\<lparr>d_node := Some nd, d_stack := rest\<rparr>))"

definition running :: "driver \<Rightarrow> bool" where
  "running d \<longleftrightarrow> d_fault d = None \<and> (d_node d \<noteq> None \<or> d_stack d \<noteq> [])"

definition start :: "compiler \<Rightarrow> driver" where
  "start c = \<lparr>d_comp = c, d_node = None,
     d_stack = [\<lparr>seg_first = 0, seg_last = c_n c - 1, seg_id = 0, seg_box = scenebox c\<rparr>],
     d_fault = None\<rparr>"

definition compile_loop :: "config \<Rightarrow> driver \<Rightarrow> driver option" where
  "compile_loop cfg d = while_option running (cstep cfg) d"

text \<open>
  \<open>compile\<close> is \<open>None\<close> when the loops never end, \<open>Some (Inl e)\<close> when the run stops
  with a fault, and \<open>Some (Inr c)\<close> with the final compiler state otherwise.
\<close>

definition compile :: "config \<Rightarrow> compiler \<Rightarrow> (fault + compiler) option" where
  "compile cfg c =
     (case compile_loop cfg (start c) of
        None \<Rightarrow> None
      | Some d \<Rightarrow> (case d_fault d of Some e \<Rightarrow> Some (Inl e)
                    | None \<Rightarrow> Some (Inr (growboxes (d_comp d)))))"

record intersector =
  i_acc :: "waldtriangle list"
  i_root :: "node list"

text \<open>
  \<open>create\<close> returns a pointer: \<open>None\<close> is \<^verbatim>\<open>NULL\<close>. The console output under
  \<^verbatim>\<open>bvhstatitics\<close> is not part of the result.
\<close>

definition create :: "config \<Rightarrow> primitive list \<Rightarrow> int \<Rightarrow> (fault + intersector option) option" where
  "create cfg ps n =
     (if n = 0 then Some (Inr None)
      else
        (case compile cfg (injection new_compiler ps (nat (n mod 2 ^ 32))) of
           None \<Rightarrow> None
         | Some (Inl e) \<Rightarrow> Some (Inl e)
         | Some (Inr c) \<Rightarrow> Some (Inr (Some \<lparr>i_acc = acc c, i_root = root c\<rparr>))))"

section \<open>Valid inputs and the state of the build\<close>

text \<open>
  \<open>inside S b\<close> says that the non-empty box \<open>b\<close> lies in \<open>S\<close>. A box is bounded when
  it is not empty and its corners are numbers between \<open>-2^45\<close> and \<open>2^45\<close>: then no
  half area and no cost of the sweep overflows. \<open>box_union\<close> is the union of a list of
  boxes, computed as \<open>injection\<close> computes the scene box.
\<close>

fun vle :: "vec3f \<Rightarrow> vec3f \<Rightarrow> bool" where
  "vle (Vec3f a b c) (Vec3f x y z) \<longleftrightarrow> a \<le> x \<and> b \<le> y \<and> c \<le> z"

definition inside :: "aabb \<Rightarrow> aabb \<Rightarrow> bool" where
  "inside S b \<longleftrightarrow> vle (pmin S) (pmin b) \<and> vle (pmin b) (pmax b) \<and> vle (pmax b) (pmax S)"

definition bounded_box :: "aabb \<Rightarrow> bool" where
  "bounded_box b \<longleftrightarrow> inside (aabb_of (Fin (- (2 ^ 45))) (Fin (2 ^ 45))) b"

definition box_union :: "aabb list \<Rightarrow> aabb" where
  "box_union bs = fold (\<lambda>b s. compose s b) bs (aabb_of (Fin FLT_MAX) (Fin (- FLT_MAX)))"

text \<open>
  A valid input has at least one and fewer than \<open>2^31\<close> primitives (the count is an
  \<^verbatim>\<open>int\<close>), and every primitive has a bounded box.
\<close>

definition valid_input :: "primitive list \<Rightarrow> bool" where
  "valid_input ps \<longleftrightarrow> ps \<noteq> [] \<and> length ps < 2 ^ 31
     \<and> (\<forall>p \<in> set ps. bounded_box (getaabb p))"

definition build :: "primitive list \<Rightarrow> compiler" where
  "build ps = injection new_compiler ps (length ps)"

definition sortkey :: "compiler \<Rightarrow> nat \<Rightarrow> nat \<Rightarrow> f32" where
  "sortkey c a i = vidx (centroid (prims c ! i)) a"

definition comp_ok :: "compiler \<Rightarrow> bool" where
  "comp_ok c \<longleftrightarrow>
     c_n c = int (length (prims c)) \<and> 0 < length (prims c) \<and> length (prims c) < 2 ^ 31
     \<and> length (ids c) = 3
     \<and> (\<forall>a < 3. mset (ids c ! a) = mset [0..<length (prims c)])
     \<and> length (pos c) = length (prims c)
     \<and> length (tmpids c) = length (prims c)
     \<and> length (boxes c) = length (prims c)
     \<and> length (rlboxes c) = length (prims c)
     \<and> length (istri c) = length (prims c)
     \<and> (\<forall>i < length (prims c). istri c ! i = (ptype (prims c ! i) = TRI))
     \<and> length (root c) = 2 * length (prims c) + 1
     \<and> length (acc c) = length (prims c)
     \<and> (\<forall>i < length (prims c). bounded_box (boxes c ! i))"

text \<open>
  \<open>seg_ids c a s\<close> lists the primitives of \<^verbatim>\<open>ids[a][first..last]\<close> for the segment
  \<open>s\<close>. A segment is in order when its range lies in the index arrays, its box is the
  union of the boxes of the primitives listed on axis 0, the three axes list the same
  primitives, and each axis lists them ascending by centroid.
\<close>

definition seg_ids :: "compiler \<Rightarrow> nat \<Rightarrow> segment \<Rightarrow> nat list" where
  "seg_ids c a s = map (idat c a) [seg_first s..seg_last s]"

definition seg_size :: "segment \<Rightarrow> nat" where
  "seg_size s = nat (seg_last s - seg_first s + 1)"

definition seg_ok :: "compiler \<Rightarrow> segment \<Rightarrow> bool" where
  "seg_ok c s \<longleftrightarrow> 0 \<le> seg_first s \<and> seg_first s \<le> seg_last s \<and> seg_last s < c_n c
     \<and> seg_box s = box_union (map (\<lambda>i. boxes c ! i) (seg_ids c 0 s))
     \<and> (\<forall>a < 3. mset (seg_ids c a s) = mset (seg_ids c 0 s))
     \<and> (\<forall>a < 3. sorted (map (sortkey c a) (seg_ids c a s)))"

definition pending :: "driver \<Rightarrow> segment list" where
  "pending d = (case d_node d of None \<Rightarrow> [] | Some nd \<Rightarrow> [nd]) @ d_stack d"

fun disjoint_segs :: "segment list \<Rightarrow> bool" where
  "disjoint_segs [] \<longleftrightarrow> True"
| "disjoint_segs (s # ss) \<longleftrightarrow>
     (\<forall>t \<in> set ss. seg_last s < seg_first t \<or> seg_last t < seg_first s) \<and> disjoint_segs ss"

text \<open>
  \<open>stack_ok a st\<close>: going down the stack from the top, every segment has at least as
  many primitives as the current node and all segments above it together (\<open>a\<close> counts
  the primitives of the current node).
\<close>

fun stack_ok :: "nat \<Rightarrow> segment list \<Rightarrow> bool" where
  "stack_ok a [] \<longleftrightarrow> True"
| "stack_ok a (t # ts) \<longleftrightarrow> a \<le> seg_size t \<and> stack_ok (a + seg_size t) ts"

definition node_size :: "driver \<Rightarrow> nat" where
  "node_size d = (case d_node d of None \<Rightarrow> 0 | Some nd \<Rightarrow> seg_size nd)"

text \<open>The states of the driver that a run from \<open>start c\<close> passes through.\<close>

inductive reach :: "config \<Rightarrow> compiler \<Rightarrow> driver \<Rightarrow> bool" for cfg :: config and c :: compiler where
  reach_start: "reach cfg c (start c)"
| reach_step: "reach cfg c d \<Longrightarrow> running d \<Longrightarrow> reach cfg c (cstep cfg d)"

definition range_boxes :: "compiler \<Rightarrow> nat \<Rightarrow> int \<Rightarrow> int \<Rightarrow> aabb list" where
  "range_boxes c a f l = map (\<lambda>i. boxes c ! i) (map (idat c a) [f..l])"

definition rl_ready :: "compiler \<Rightarrow> nat \<Rightarrow> int \<Rightarrow> int \<Rightarrow> bool" where
  "rl_ready c a f l \<longleftrightarrow> (\<forall>k. f \<le> k \<and> k \<le> l \<longrightarrow>
      rlboxes c ! idat c a k = box_union (range_boxes c a k l))"

definition scan_start :: "nat \<Rightarrow> int \<Rightarrow> int \<Rightarrow> sweepstate" where
  "scan_start a f l = \<lparr>sw_box = aabb_of (Fin FLT_MAX) (Fin (- FLT_MAX)), sw_n = 1,
        sw_part = (new_partition f l a)\<lparr>part_cost := Fin FLT_MAX\<rparr>, sw_alltris = True\<rparr>"

definition split_at :: "compiler \<Rightarrow> nat \<Rightarrow> int \<Rightarrow> int \<Rightarrow> int \<Rightarrow> partition \<Rightarrow> bool" where
  "split_at c a f l jj p \<longleftrightarrow> part_axis p = a \<and> part_first p = [f, jj + 1] \<and> part_last p = [jj, l]
     \<and> part_boxes p = [box_union (range_boxes c a f jj), box_union (range_boxes c a (jj + 1) l)]"

text \<open>
  \<open>scan_upto a c f l j\<close> is the state of the loop of the sweep on entry to iteration
  \<open>j\<close>, and \<open>scan_cost a c f l j\<close> the cost that iteration \<open>j\<close> computes.
\<close>

definition scan_upto :: "nat \<Rightarrow> compiler \<Rightarrow> int \<Rightarrow> int \<Rightarrow> int \<Rightarrow> sweepstate" where
  "scan_upto a c f l j = fold (sweep_step c a (l - f + 1)) [f..j - 1] (scan_start a f l)"



definition unit_tri :: "rat \<Rightarrow> primitive" where
  "unit_tri x = \<lparr>ptype = TRI, v0 = Vec3f (Fin x) (Fin 0) (Fin 0),
     v1 = Vec3f (Fin (x + 1)) (Fin 0) (Fin 0), v2 = Vec3f (Fin x) (Fin 1) (Fin 0), isec = 0\<rparr>"

definition part_shape :: "config \<Rightarrow> compiler \<Rightarrow> int \<Rightarrow> int \<Rightarrow> partition \<Rightarrow> bool" where
  "part_shape cfg c f l p \<longleftrightarrow> part_axis p < 3 \<and>
     ((part_first p = [-1, -1] \<and> part_last p = [-1, -1]
        \<and> (\<forall>k. f \<le> k \<and> k \<le> l \<longrightarrow> istri c ! idat c (part_axis p) k)
        \<and> l - f + 1 \<le> maxprimitivenum cfg)
      \<or> (\<exists>jj. f \<le> jj \<and> jj < l \<and> split_at c (part_axis p) f l jj p))"

definition ids_range :: "compiler \<Rightarrow> nat \<Rightarrow> int \<Rightarrow> int \<Rightarrow> nat list" where
  "ids_range c a f l = map (idat c a) [f..l]"

definition onleft :: "compiler \<Rightarrow> nat \<Rightarrow> bool" where
  "onleft c i \<longleftrightarrow> pos c ! i = ONLEFT"

definition marked :: "compiler \<Rightarrow> nat \<Rightarrow> int \<Rightarrow> int \<Rightarrow> int \<Rightarrow> bool" where
  "marked c a f jj l \<longleftrightarrow> (\<forall>i \<in> set (ids_range c a f jj). pos c ! i = 0)
     \<and> (\<forall>i \<in> set (ids_range c a (jj + 1) l). pos c ! i = 1)"

definition sides_ok :: "compiler \<Rightarrow> compiler \<Rightarrow> nat \<Rightarrow> int \<Rightarrow> int \<Rightarrow> int \<Rightarrow> bool" where
  "sides_ok c c' a f jj l \<longleftrightarrow>
     (\<forall>d < 3. mset (ids_range c' d f jj) = mset (ids_range c a f jj)
        \<and> mset (ids_range c' d (jj + 1) l) = mset (ids_range c a (jj + 1) l)
        \<and> sorted (map (sortkey c d) (ids_range c' d f jj))
        \<and> sorted (map (sortkey c d) (ids_range c' d (jj + 1) l))
        \<and> (\<forall>x y. 0 \<le> x \<and> (y < f \<or> l < x) \<longrightarrow> ids_range c' d x y = ids_range c d x y))"

definition leaf_content :: "compiler \<Rightarrow> segment \<Rightarrow> compiler \<Rightarrow> bool" where
  "leaf_content c nd c' \<longleftrightarrow>
     (seg_size nd = 1 \<and> ptype (prims c ! idat c 0 (seg_first nd)) = INTERSECTOR
        \<and> n_flag (root c' ! seg_id nd) = ISECLEAF
        \<and> n_ptr (root c' ! seg_id nd) = ISECPTR (isec (prims c ! idat c 0 (seg_first nd)))
        \<and> accnum c' = accnum c)
     \<or> ((\<forall>i \<in> set (seg_ids c 0 nd). ptype (prims c ! i) = TRI)
        \<and> n_flag (root c' ! seg_id nd) = TRILEAF
        \<and> n_ptr (root c' ! seg_id nd) = ACCPTR (nat (accnum c))
        \<and> accnum c' = accnum c + int (seg_size nd)
        \<and> (\<forall>k < seg_size nd. w_num (acc c' ! (nat (accnum c) + k)) = int (seg_size nd)
              \<and> w_id (acc c' ! (nat (accnum c) + k)) = seg_ids c 0 nd ! k))"

definition leaf_frame :: "compiler \<Rightarrow> segment \<Rightarrow> compiler \<Rightarrow> bool" where
  "leaf_frame c nd c' \<longleftrightarrow>
     c' = c\<lparr>root := root c', acc := acc c', accnum := accnum c', leafnum := leafnum c + 1,
            nodenum := nodenum c + 1\<rparr>
     \<and> length (root c') = length (root c) \<and> length (acc c') = length (acc c)
     \<and> (\<forall>i. i \<noteq> seg_id nd \<longrightarrow> root c' ! i = root c ! i)"

section \<open>Auxiliary facts\<close>

subsection \<open>Rounding\<close>

lemma Fin_less [simp]: "Fin a < Fin b \<longleftrightarrow> a < b"
  by (auto simp: less_f32_def)

lemma min_Fin [simp]: "min (Fin a) (Fin b) = Fin (min a b)"
  by (simp add: min_def)

lemma max_Fin [simp]: "max (Fin a) (Fin b) = Fin (max a b)"
  by (simp add: max_def)

lemma between_Fin:
  assumes "Fin l \<le> x" "x \<le> Fin u"
  obtains r where "x = Fin r" "l \<le> r" "r \<le> u"
  using assms by (cases x) simp_all

lemma pow2_pos [simp]: "0 < pow2 q"
  by (simp add: pow2_def)

lemma pow2_nonneg [simp]: "0 \<le> pow2 q"
  by (simp add: pow2_def)

lemma pow2_split:
  assumes "q \<le> int k"
  shows "(2::rat) ^ k = of_int (2 ^ nat (int k - q)) * pow2 q"
proof (cases "0 \<le> q")
  case True
  then have "k = nat (int k - q) + nat q" using assms by linarith
  then have "(2::rat) ^ k = 2 ^ nat (int k - q) * 2 ^ nat q" by (metis power_add)
  then show ?thesis using True by (simp add: pow2_def)
next
  case False
  then have "nat (int k - q) = k + nat (- q)" by linarith
  then have "(2::rat) ^ nat (int k - q) = 2 ^ k * 2 ^ nat (- q)" by (simp add: power_add)
  then show ?thesis using False by (simp add: pow2_def)
qed

lemma pow2_above:
  assumes "int k < q"
  shows "(2::rat) ^ k / pow2 q \<le> 1 / 2"
proof -
  have q: "0 \<le> q" "nat q = Suc (k + (nat q - Suc k))" using assms by linarith+
  have "pow2 q = 2 ^ Suc (k + (nat q - Suc k))" using q by (simp add: pow2_def)
  also have "\<dots> = 2 * 2 ^ k * 2 ^ (nat q - Suc k)" by (simp add: power_add)
  finally have p: "pow2 q = 2 * 2 ^ k * 2 ^ (nat q - Suc k)" .
  have "(1::rat) \<le> 2 ^ (nat q - Suc k)" by simp
  then have "(2::rat) * 2 ^ k * 1 \<le> 2 * 2 ^ k * 2 ^ (nat q - Suc k)"
    by (intro mult_left_mono) simp_all
  then have "(2::rat) ^ k * 2 \<le> pow2 q" unfolding p by simp
  then show ?thesis by (simp add: field_simps)
qed

lemma round_even_nonneg: "0 \<le> y \<Longrightarrow> 0 \<le> round_even y"
  by (auto simp: round_even_def Let_def)

lemma round_even_le: "y \<le> of_int M \<Longrightarrow> round_even y \<le> M"
proof -
  assume y: "y \<le> of_int M"
  then have f: "\<lfloor>y\<rfloor> \<le> M" by (simp add: floor_le_iff) 
  show ?thesis
  proof (cases "\<lfloor>y\<rfloor> = M")
    case True
    then have "of_int M \<le> y" by (metis of_int_floor_le)
    then have "y = of_int M" using y by simp
    then show ?thesis by (simp add: round_even_def Let_def)
  next
    case False
    then have "\<lfloor>y\<rfloor> + 1 \<le> M" using f by simp
    then show ?thesis by (auto simp: round_even_def Let_def)
  qed
qed

lemma round_even_small: "0 \<le> y \<Longrightarrow> y \<le> 1 / 2 \<Longrightarrow> round_even y = 0"
proof -
  assume y: "0 \<le> y" "y \<le> 1 / 2"
  then have "\<lfloor>y\<rfloor> = 0" by (simp add: floor_unique)
  then show ?thesis using y by (simp add: round_even_def Let_def)
qed

lemma rounded_bound:
  assumes a: "0 \<le> a" "a \<le> 2 ^ k"
  shows "0 \<le> of_int (round_even (a / pow2 q)) * pow2 q
    \<and> of_int (round_even (a / pow2 q)) * pow2 q \<le> 2 ^ k"
proof -
  have y0: "0 \<le> a / pow2 q" using a(1) pow2_pos[of q] by (intro divide_nonneg_pos)
  have n: "0 \<le> of_int (round_even (a / pow2 q)) * pow2 q"
    using round_even_nonneg[OF y0] by (intro mult_nonneg_nonneg) simp_all
  have "of_int (round_even (a / pow2 q)) * pow2 q \<le> 2 ^ k"
  proof (cases "q \<le> int k")
    case True
    let ?M = "2 ^ nat (int k - q) :: int"
    have s: "(2::rat) ^ k = of_int ?M * pow2 q" by (rule pow2_split[OF True])
    have "a / pow2 q \<le> of_int ?M" using a(2) unfolding s by (simp add: field_simps)
    then have "round_even (a / pow2 q) \<le> ?M" by (rule round_even_le)
    then have "(of_int (round_even (a / pow2 q)) :: rat) \<le> of_int ?M" by (simp only: of_int_le_iff)
    then have "of_int (round_even (a / pow2 q)) * pow2 q \<le> of_int ?M * pow2 q"
      by (intro mult_right_mono) simp_all
    then show ?thesis unfolding s .
  next
    case False
    then have "(2::rat) ^ k / pow2 q \<le> 1 / 2" by (intro pow2_above) simp
    moreover have "a / pow2 q \<le> 2 ^ k / pow2 q" using a(2) by (simp add: divide_right_mono)
    ultimately have "a / pow2 q \<le> 1 / 2" by linarith
    then have "round_even (a / pow2 q) = 0" using y0 by (intro round_even_small)
    then show ?thesis by simp
  qed
  with n show ?thesis by simp
qed

lemma FLT_MAX_big: "k \<le> 127 \<Longrightarrow> (2::rat) ^ k \<le> FLT_MAX"
proof -
  assume "k \<le> 127"
  then have "(2::rat) ^ k \<le> 2 ^ 127" by (intro power_increasing) simp_all
  also have "\<dots> \<le> FLT_MAX" by (simp add: FLT_MAX_def)
  finally show ?thesis .
qed

lemma rnd_bound:
  assumes x: "\<bar>x\<bar> \<le> 2 ^ k" and k: "k \<le> 127"
  shows "\<exists>r. rnd x = Fin r \<and> \<bar>r\<bar> \<le> 2 ^ k"
proof (cases "x = 0")
  case True
  then show ?thesis by (simp add: rnd_def)
next
  case False
  define q where "q = max (ilog2 \<bar>x\<bar>) (- 126) - 23"
  define r where "r = of_int (round_even (\<bar>x\<bar> / pow2 q)) * pow2 q"
  have b: "0 \<le> r" "r \<le> 2 ^ k"
    using rounded_bound[of "\<bar>x\<bar>" k q] x unfolding r_def by simp_all
  have "\<not> FLT_MAX < r" using b FLT_MAX_big[OF k] by simp
  then have "rnd x = Fin (if x < 0 then - r else r)"
    using False by (simp add: rnd_def Let_def q_def r_def)
  moreover have "\<bar>if x < 0 then - r else r\<bar> \<le> 2 ^ k" using b by simp
  ultimately show ?thesis by blast
qed

lemma fmul_bound:
  assumes "\<bar>a\<bar> \<le> 2 ^ i" "\<bar>b\<bar> \<le> 2 ^ j" "i + j \<le> 127"
  shows "\<exists>r. fmul (Fin a) (Fin b) = Fin r \<and> \<bar>r\<bar> \<le> 2 ^ (i + j)"
proof -
  have "\<bar>a * b\<bar> \<le> 2 ^ i * 2 ^ j"
    unfolding abs_mult using assms(1,2) by (intro mult_mono) simp_all
  then have "\<bar>a * b\<bar> \<le> 2 ^ (i + j)" by (simp add: power_add)
  from rnd_bound[OF this assms(3)] show ?thesis by simp
qed

lemma fadd_bound:
  assumes "\<bar>a\<bar> \<le> 2 ^ i" "\<bar>b\<bar> \<le> 2 ^ i" "Suc i \<le> 127"
  shows "\<exists>r. fadd (Fin a) (Fin b) = Fin r \<and> \<bar>r\<bar> \<le> 2 ^ Suc i"
proof -
  have "\<bar>a + b\<bar> \<le> 2 ^ Suc i" using assms(1,2) by simp
  from rnd_bound[OF this assms(3)] show ?thesis by simp
qed

lemma fsub_bound:
  assumes "\<bar>a\<bar> \<le> 2 ^ i" "\<bar>b\<bar> \<le> 2 ^ i" "Suc i \<le> 127"
  shows "\<exists>r. fsub (Fin a) (Fin b) = Fin r \<and> \<bar>r\<bar> \<le> 2 ^ Suc i"
  using fadd_bound[of a i "- b"] assms by (simp add: fsub_def)

lemma i2f_bound:
  assumes "0 \<le> n" "n < 2 ^ 31"
  shows "\<exists>r. i2f n = Fin r \<and> \<bar>r\<bar> \<le> 2 ^ 31"
proof -
  have "(of_int n :: rat) \<le> of_int (2 ^ 31)" using assms by (simp only: of_int_le_iff)
  then have "\<bar>of_int n :: rat\<bar> \<le> 2 ^ 31" using assms by simp
  from rnd_bound[OF this] show ?thesis by (simp add: i2f_def)
qed


subsection \<open>Loops over index ranges\<close>

lemma fold_upto_rule:
  assumes "P f s"
    and "\<And>j t. f \<le> j \<Longrightarrow> j \<le> l \<Longrightarrow> P j t \<Longrightarrow> P (j + 1) (g j t)"
    and "f \<le> l + 1"
  shows "P (l + 1) (fold g [f..l] s)"
  using assms(3,2)
proof (induction "nat (l + 1 - f)" arbitrary: l)
  case 0
  then have "l + 1 = f" by simp
  then show ?case using assms(1) by simp
next
  case (Suc k)
  then have fl: "f \<le> l" by linarith
  have "P (l - 1 + 1) (fold g [f..l - 1] s)"
    by (rule Suc.hyps(1)) (use Suc in auto)
  then have "P l (fold g [f..l - 1] s)" by simp
  then have "P (l + 1) (g l (fold g [f..l - 1] s))"
    using Suc.prems(2)[of l] fl by simp
  then show ?case using fl by (simp add: upto_rec2)
qed

lemma fold_rev_upto_rule:
  assumes "P (l + 1) s"
    and "\<And>j t. f \<le> j \<Longrightarrow> j \<le> l \<Longrightarrow> P (j + 1) t \<Longrightarrow> P j (g j t)"
    and "f \<le> l + 1"
  shows "P f (fold g (rev [f..l]) s)"
  using assms(3,2)
proof (induction "nat (l + 1 - f)" arbitrary: f)
  case 0
  then have "l + 1 = f" by simp
  then show ?case using assms(1) by simp
next
  case (Suc k)
  then have fl: "f \<le> l" by linarith
  have "P (f + 1) (fold g (rev [f + 1..l]) s)"
    by (rule Suc.hyps(1)) (use Suc in auto)
  then have "P f (g f (fold g (rev [f + 1..l]) s))"
    using Suc.prems(2)[of f] fl by simp
  then show ?case using fl by (simp add: upto_rec1)
qed

subsection \<open>Boxes\<close>

lemma vle_refl [simp]: "vle a a" by (cases a) simp

lemma vle_trans: "vle a b \<Longrightarrow> vle b c \<Longrightarrow> vle a c"
  by (cases a; cases b; cases c) (auto intro: order_trans)

lemma vmin_comm: "vmin a b = vmin b a" by (cases a; cases b) (simp add: min.commute)
lemma vmax_comm: "vmax a b = vmax b a" by (cases a; cases b) (simp add: max.commute)
lemma vmin_assoc: "vmin (vmin a b) c = vmin a (vmin b c)" by (cases a; cases b; cases c) (simp add: min.assoc)
lemma vmax_assoc: "vmax (vmax a b) c = vmax a (vmax b c)" by (cases a; cases b; cases c) (simp add: max.assoc)

lemma compose_comm: "compose a b = compose b a"
  by (simp add: compose_def vmin_comm vmax_comm)

lemma compose_assoc: "compose (compose a b) c = compose a (compose b c)"
  by (simp add: compose_def vmin_assoc vmax_assoc)

lemma compose_left_comm: "compose a (compose b c) = compose b (compose a c)"
  by (metis compose_assoc compose_comm)

lemma inside_compose: "inside S a \<Longrightarrow> inside S b \<Longrightarrow> inside S (compose a b)"
  unfolding inside_def compose_def
  by (cases "pmin S"; cases "pmax S"; cases "pmin a"; cases "pmax a"; cases "pmin b"; cases "pmax b")
     (auto simp: min_def max_def)

lemma bounded_boxE:
  assumes "bounded_box b"
  obtains ax ay az bx by' bz where "pmin b = Vec3f (Fin ax) (Fin ay) (Fin az)"
    "pmax b = Vec3f (Fin bx) (Fin by') (Fin bz)"
    "- (2 ^ 45) \<le> ax" "ax \<le> bx" "bx \<le> 2 ^ 45"
    "- (2 ^ 45) \<le> ay" "ay \<le> by'" "by' \<le> 2 ^ 45"
    "- (2 ^ 45) \<le> az" "az \<le> bz" "bz \<le> 2 ^ 45"
proof -
  obtain x y z where lo: "pmin b = Vec3f x y z" by (cases "pmin b")
  obtain u v w where hi: "pmax b = Vec3f u v w" by (cases "pmax b")
  from assms have le: "Fin (- (2 ^ 45)) \<le> x" "Fin (- (2 ^ 45)) \<le> y" "Fin (- (2 ^ 45)) \<le> z"
    "x \<le> u" "y \<le> v" "z \<le> w" "u \<le> Fin (2 ^ 45)" "v \<le> Fin (2 ^ 45)" "w \<le> Fin (2 ^ 45)"
    by (simp_all add: bounded_box_def inside_def aabb_of_def lo hi)
  from le(1) order_trans[OF le(4) le(7)] obtain ax where ax: "x = Fin ax" by (rule between_Fin)
  from le(2) order_trans[OF le(5) le(8)] obtain ay where ay: "y = Fin ay" by (rule between_Fin)
  from le(3) order_trans[OF le(6) le(9)] obtain az where az: "z = Fin az" by (rule between_Fin)
  from order_trans[OF le(1) le(4)] le(7) obtain bx where bx: "u = Fin bx" by (rule between_Fin)
  from order_trans[OF le(2) le(5)] le(8) obtain by' where by': "v = Fin by'" by (rule between_Fin)
  from order_trans[OF le(3) le(6)] le(9) obtain bz where bz: "w = Fin bz" by (rule between_Fin)
  show thesis
    by (rule that[of ax ay az bx by' bz]) (use le in \<open>simp_all add: lo hi ax ay az bx by' bz\<close>)
qed

lemma compose_empty: "bounded_box b \<Longrightarrow> compose (aabb_of (Fin FLT_MAX) (Fin (- FLT_MAX))) b = b"
proof -
  assume "bounded_box b"
  then obtain ax ay az bx by' bz where b: "pmin b = Vec3f (Fin ax) (Fin ay) (Fin az)"
    "pmax b = Vec3f (Fin bx) (Fin by') (Fin bz)"
    and le: "- (2 ^ 45) \<le> ax" "ax \<le> bx" "bx \<le> 2 ^ 45"
    "- (2 ^ 45) \<le> ay" "ay \<le> by'" "by' \<le> 2 ^ 45"
    "- (2 ^ 45) \<le> az" "az \<le> bz" "bz \<le> 2 ^ 45"
    by (rule bounded_boxE)
  have m: "(2::rat) ^ 45 \<le> FLT_MAX" by (rule FLT_MAX_big) simp
  have "min FLT_MAX ax = ax" "min FLT_MAX ay = ay" "min FLT_MAX az = az"
    "max (- FLT_MAX) bx = bx" "max (- FLT_MAX) by' = by'" "max (- FLT_MAX) bz = bz"
    using le m by simp_all
  then have "pmin (compose (aabb_of (Fin FLT_MAX) (Fin (- FLT_MAX))) b) = pmin b"
    "pmax (compose (aabb_of (Fin FLT_MAX) (Fin (- FLT_MAX))) b) = pmax b"
    by (simp_all add: compose_def aabb_of_def b)
  then show ?thesis by (simp add: compose_def)
qed

lemma bounded_compose: "bounded_box a \<Longrightarrow> bounded_box b \<Longrightarrow> bounded_box (compose a b)"
  unfolding bounded_box_def by (rule inside_compose)

lemma halfarea_bound:
  assumes "bounded_box b"
  shows "\<exists>r. halfarea b = Fin r \<and> \<bar>r\<bar> \<le> 2 ^ 94"
proof -
  from assms obtain ax ay az bx by' bz where b: "pmin b = Vec3f (Fin ax) (Fin ay) (Fin az)"
    "pmax b = Vec3f (Fin bx) (Fin by') (Fin bz)"
    and le: "- (2 ^ 45) \<le> ax" "ax \<le> bx" "bx \<le> 2 ^ 45"
    "- (2 ^ 45) \<le> ay" "ay \<le> by'" "by' \<le> 2 ^ 45"
    "- (2 ^ 45) \<le> az" "az \<le> bz" "bz \<le> 2 ^ 45"
    by (rule bounded_boxE)
  have c: "\<bar>ax\<bar> \<le> 2 ^ 45" "\<bar>ay\<bar> \<le> 2 ^ 45" "\<bar>az\<bar> \<le> 2 ^ 45"
    "\<bar>bx\<bar> \<le> 2 ^ 45" "\<bar>by'\<bar> \<le> 2 ^ 45" "\<bar>bz\<bar> \<le> 2 ^ 45"
    using le by (simp_all add: abs_le_iff)
  obtain ex where ex: "fsub (Fin bx) (Fin ax) = Fin ex" "\<bar>ex\<bar> \<le> 2 ^ Suc 45"
    using fsub_bound[OF c(4) c(1)] by auto
  obtain ey where ey: "fsub (Fin by') (Fin ay) = Fin ey" "\<bar>ey\<bar> \<le> 2 ^ Suc 45"
    using fsub_bound[OF c(5) c(2)] by auto
  obtain ez where ez: "fsub (Fin bz) (Fin az) = Fin ez" "\<bar>ez\<bar> \<le> 2 ^ Suc 45"
    using fsub_bound[OF c(6) c(3)] by auto
  obtain p1 where p1: "fmul (Fin ex) (Fin ey) = Fin p1" "\<bar>p1\<bar> \<le> 2 ^ (Suc 45 + Suc 45)"
    using fmul_bound[OF ex(2) ey(2)] by auto
  obtain p2 where p2: "fmul (Fin ey) (Fin ez) = Fin p2" "\<bar>p2\<bar> \<le> 2 ^ (Suc 45 + Suc 45)"
    using fmul_bound[OF ey(2) ez(2)] by auto
  obtain p3 where p3: "fmul (Fin ez) (Fin ex) = Fin p3" "\<bar>p3\<bar> \<le> 2 ^ (Suc 45 + Suc 45)"
    using fmul_bound[OF ez(2) ex(2)] by auto
  obtain s1 where s1: "fadd (Fin p1) (Fin p2) = Fin s1" "\<bar>s1\<bar> \<le> 2 ^ Suc (Suc 45 + Suc 45)"
    using fadd_bound[OF p1(2) p2(2)] by auto
  have p3': "\<bar>p3\<bar> \<le> 2 ^ Suc (Suc 45 + Suc 45)"
  proof -
    have "(2::rat) ^ (Suc 45 + Suc 45) \<le> 2 ^ Suc (Suc 45 + Suc 45)" by (intro power_increasing) simp_all
    then show ?thesis using p3(2) by linarith
  qed
  obtain s2 where s2: "fadd (Fin s1) (Fin p3) = Fin s2" "\<bar>s2\<bar> \<le> 2 ^ Suc (Suc (Suc 45 + Suc 45))"
    using fadd_bound[OF s1(2) p3'] by auto
  have "halfarea b = Fin s2"
    by (simp add: halfarea_def Let_def b ex ey ez p1 p2 p3 s1 s2 del: fmul.simps fadd.simps)
  moreover have "\<bar>s2\<bar> \<le> 2 ^ 94" using s2(2) by simp
  ultimately show ?thesis by blast
qed

lemma cost_bound:
  assumes "bounded_box x" "bounded_box y" "0 \<le> m" "m < 2 ^ 31" "0 \<le> n" "n < 2 ^ 31"
  shows "\<not> fgt (fadd (fmul (halfarea x) (i2f m)) (fmul (halfarea y) (i2f n))) (Fin FLT_MAX)"
proof -
  obtain hx where hx: "halfarea x = Fin hx" "\<bar>hx\<bar> \<le> 2 ^ 94"
    using halfarea_bound[OF assms(1)] by auto
  obtain hy where hy: "halfarea y = Fin hy" "\<bar>hy\<bar> \<le> 2 ^ 94"
    using halfarea_bound[OF assms(2)] by auto
  obtain fm where fm: "i2f m = Fin fm" "\<bar>fm\<bar> \<le> 2 ^ 31"
    using i2f_bound[OF assms(3,4)] by auto
  obtain fn where fn: "i2f n = Fin fn" "\<bar>fn\<bar> \<le> 2 ^ 31"
    using i2f_bound[OF assms(5,6)] by auto
  obtain p where p: "fmul (Fin hx) (Fin fm) = Fin p" "\<bar>p\<bar> \<le> 2 ^ (94 + 31)"
    using fmul_bound[OF hx(2) fm(2)] by auto
  obtain q where q: "fmul (Fin hy) (Fin fn) = Fin q" "\<bar>q\<bar> \<le> 2 ^ (94 + 31)"
    using fmul_bound[OF hy(2) fn(2)] by auto
  obtain r where r: "fadd (Fin p) (Fin q) = Fin r" "\<bar>r\<bar> \<le> 2 ^ Suc (94 + 31)"
    using fadd_bound[OF p(2) q(2)] by auto
  have "(2::rat) ^ Suc (94 + 31) \<le> FLT_MAX" by (rule FLT_MAX_big) simp
  then have "r \<le> FLT_MAX" using r(2) by linarith
  then show ?thesis by (simp add: hx hy fm fn p q r fgt_def flt_def del: fmul.simps fadd.simps)
qed

lemma box_union_snoc: "box_union (bs @ [b]) = compose (box_union bs) b"
  by (simp add: box_union_def)

lemma fold_compose_init: "fold (\<lambda>b s. compose s b) bs (compose i x) = compose (fold (\<lambda>b s. compose s b) bs i) x"
proof (induction bs arbitrary: i)
  case Nil show ?case by simp
next
  case (Cons a bs)
  have "compose (compose i x) a = compose (compose i a) x"
    by (metis compose_assoc compose_comm)
  then show ?case using Cons by simp
qed

lemma box_union_Cons: "box_union (b # bs) = compose (box_union bs) b"
  unfolding box_union_def by (simp add: fold_compose_init)

lemma box_union_mset: "mset bs = mset bs' \<Longrightarrow> box_union bs = box_union bs'"
  unfolding box_union_def
  by (rule fun_cong[OF fold_multiset_equiv]) (auto simp: fun_eq_iff intro: arg_cong2[where f=compose] simp: compose_assoc compose_comm compose_left_comm)

subsection \<open>Index arrays\<close>

lemma ids_perm:
  assumes "comp_ok c" "a < 3"
  shows "length (ids c ! a) = length (prims c)" "distinct (ids c ! a)"
    "set (ids c ! a) = {0..<length (prims c)}"
proof -
  from assms have m: "mset (ids c ! a) = mset [0..<length (prims c)]"
    by (simp add: comp_ok_def)
  show "length (ids c ! a) = length (prims c)" using mset_eq_length[OF m] by simp
  show "distinct (ids c ! a)" using mset_eq_imp_distinct_iff[OF m] by simp
  show "set (ids c ! a) = {0..<length (prims c)}" using mset_eq_setD[OF m] by simp
qed

lemma idat_less:
  assumes "comp_ok c" "a < 3" "0 \<le> j" "j < c_n c"
  shows "idat c a j < length (prims c)"
proof -
  have "nat j < length (ids c ! a)"
    using assms ids_perm(1)[OF assms(1,2)] by (simp add: comp_ok_def)
  then have "ids c ! a ! nat j \<in> set (ids c ! a)" by simp
  then show ?thesis using ids_perm(3)[OF assms(1,2)] by (simp add: idat_def)
qed

lemma idat_inj:
  assumes "comp_ok c" "a < 3" "0 \<le> j" "j < c_n c" "0 \<le> k" "k < c_n c"
  shows "idat c a j = idat c a k \<longleftrightarrow> j = k"
proof -
  have "nat j < length (ids c ! a)" "nat k < length (ids c ! a)"
    using assms ids_perm(1)[OF assms(1,2)] by (simp_all add: comp_ok_def)
  then have "ids c ! a ! nat j = ids c ! a ! nat k \<longleftrightarrow> nat j = nat k"
    using ids_perm(2)[OF assms(1,2)] by (simp add: nth_eq_iff_index_eq)
  moreover have "nat j = nat k \<longleftrightarrow> j = k" using assms(3,5) by auto
  ultimately show ?thesis by (simp add: idat_def)
qed

lemma comp_ok_box:
  assumes "comp_ok c" "i < length (prims c)"
  shows "bounded_box (boxes c ! i)"
  using assms by (simp add: comp_ok_def)

subsection \<open>Unions of boxes\<close>

lemma box_union_single: "bounded_box b \<Longrightarrow> box_union [b] = b"
  by (simp add: box_union_def compose_empty)

lemma box_union_inside:
  assumes "bs \<noteq> []" "\<forall>b \<in> set bs. bounded_box b"
  shows "bounded_box (box_union bs)"
  using assms
proof (induction bs rule: rev_induct)
  case Nil then show ?case by simp
next
  case (snoc b bs)
  show ?case
  proof (cases "bs = []")
    case True
    then show ?thesis using snoc.prems by (simp add: box_union_single)
  next
    case False
    then have "bounded_box (box_union bs)" using snoc by simp
    then show ?thesis using snoc.prems
      by (simp add: box_union_snoc bounded_compose)
  qed
qed

lemma range_boxes_ok:
  assumes "comp_ok c" "a < 3" "0 \<le> f" "l < c_n c"
  shows "\<forall>b \<in> set (range_boxes c a f l). bounded_box b"
  using assms by (auto simp: range_boxes_def intro!: comp_ok_box idat_less)

lemma range_union_ok:
  assumes "comp_ok c" "a < 3" "0 \<le> f" "f \<le> l" "l < c_n c"
  shows "bounded_box (box_union (range_boxes c a f l))"
proof -
  have "range_boxes c a f l \<noteq> []" using assms by (simp add: range_boxes_def)
  from box_union_inside[OF this range_boxes_ok[OF assms(1,2,3,5)]] show ?thesis .
qed

lemma range_boxes_rec1: "f \<le> l \<Longrightarrow> range_boxes c a f l = boxes c ! idat c a f # range_boxes c a (f + 1) l"
  by (simp add: range_boxes_def upto_rec1)

lemma range_boxes_rec2: "f \<le> l \<Longrightarrow> range_boxes c a f l = range_boxes c a f (l - 1) @ [boxes c ! idat c a l]"
  by (simp add: range_boxes_def upto_rec2)

lemma range_boxes_empty [simp]: "l < f \<Longrightarrow> range_boxes c a f l = []"
  by (simp add: range_boxes_def)

subsection \<open>The inclusion sequence\<close>

lemma rl_step_frame: "rl_step a j c = c\<lparr>rlboxes := rlboxes (rl_step a j c)\<rparr>"
  by (simp add: rl_step_def Let_def)

lemma rl_step_length: "length (rlboxes (rl_step a j c)) = length (rlboxes c)"
  by (simp add: rl_step_def Let_def)

lemma rl_step_idat [simp]: "idat (c\<lparr>rlboxes := R\<rparr>) a j = idat c a j"
  by (simp add: idat_def)

lemma inclusion_spec:
  assumes ok: "comp_ok c" and a: "a < 3" and f: "0 \<le> f" "f \<le> l" and l: "l < c_n c"
  shows "inclusion a c f l = c\<lparr>rlboxes := rlboxes (inclusion a c f l)\<rparr>
    \<and> length (rlboxes (inclusion a c f l)) = length (rlboxes c)
    \<and> (\<forall>k. f \<le> k \<and> k \<le> l \<longrightarrow>
          rlboxes (inclusion a c f l) ! idat c a k = box_union (range_boxes c a k l))"
proof -
  define P where "P = (\<lambda>j t. t = c\<lparr>rlboxes := rlboxes t\<rparr> \<and> length (rlboxes t) = length (rlboxes c)
      \<and> (\<forall>k. j \<le> k \<and> k \<le> l \<longrightarrow> rlboxes t ! idat c a k = box_union (range_boxes c a k l)))"
  define c0 where "c0 = c\<lparr>rlboxes := (rlboxes c)[idat c a l := boxes c ! idat c a l]\<rparr>"
  have N: "length (rlboxes c) = length (prims c)" using ok by (simp add: comp_ok_def)
  have lt: "\<And>k. f \<le> k \<Longrightarrow> k \<le> l \<Longrightarrow> idat c a k < length (prims c)"
    using idat_less[OF ok a] f l by auto
  have fb: "\<And>k. f \<le> k \<Longrightarrow> k \<le> l \<Longrightarrow> bounded_box (boxes c ! idat c a k)"
    using comp_ok_box[OF ok] lt by auto
  have init: "P (l - 1 + 1) c0"
    unfolding P_def c0_def using lt[of l] f N
    by (auto simp: range_boxes_rec1 box_union_single fb)
  have step: "P j (rl_step a j t)" if j: "f \<le> j" "j \<le> l - 1" and Pt: "P (j + 1) t" for j t
  proof -
    from Pt have t: "t = c\<lparr>rlboxes := rlboxes t\<rparr>" and len: "length (rlboxes t) = length (rlboxes c)"
      and U: "\<And>k. j + 1 \<le> k \<Longrightarrow> k \<le> l \<Longrightarrow> rlboxes t ! idat c a k = box_union (range_boxes c a k l)"
      unfolding P_def by auto
    have idt: "idat t a = idat c a" by (subst t) (simp add: fun_eq_iff)
    have bt: "boxes t = boxes c" by (subst t) simp
    have ne: "idat c a (j + 1) \<noteq> idat c a j"
      using idat_inj[OF ok a, of "j + 1" j] j f l by auto
    have ij: "idat c a j < length (rlboxes t)" using lt[of j] j len N by simp
    have r: "rlboxes (rl_step a j t) = (rlboxes t)[idat c a j :=
        compose (boxes c ! idat c a j) (rlboxes t ! idat c a (j + 1))]"
      using ne ij by (simp add: rl_step_def Let_def idt bt)
    have "rl_step a j t = c\<lparr>rlboxes := rlboxes (rl_step a j t)\<rparr>"
      by (subst rl_step_frame, subst t) simp
    moreover have "length (rlboxes (rl_step a j t)) = length (rlboxes c)"
      by (simp add: rl_step_length len)
    moreover have "rlboxes (rl_step a j t) ! idat c a k = box_union (range_boxes c a k l)"
      if k: "j \<le> k" "k \<le> l" for k
    proof (cases "k = j")
      case True
      have "rlboxes (rl_step a j t) ! idat c a j
          = compose (boxes c ! idat c a j) (box_union (range_boxes c a (j + 1) l))"
        using ij j by (simp add: r U)
      also have "\<dots> = box_union (range_boxes c a j l)"
        using j by (simp add: range_boxes_rec1[of j l] box_union_Cons compose_comm)
      finally show ?thesis using True by simp
    next
      case False
      then have "idat c a k \<noteq> idat c a j"
        using idat_inj[OF ok a, of k j] j k f l by auto
      then show ?thesis using False k by (simp add: r U)
    qed
    ultimately show ?thesis unfolding P_def by blast
  qed
  have "P f (fold (rl_step a) (rev [f..l - 1]) c0)"
    by (rule fold_rev_upto_rule[where P = P, OF init step]) (use f in auto)
  then show ?thesis unfolding P_def inclusion_def c0_def by simp
qed

lemma comp_ok_rlboxes: "comp_ok c \<Longrightarrow> length R = length (rlboxes c) \<Longrightarrow> comp_ok (c\<lparr>rlboxes := R\<rparr>)"
  by (simp add: comp_ok_def)

lemma range_boxes_rlboxes [simp]: "range_boxes (c\<lparr>rlboxes := R\<rparr>) a f l = range_boxes c a f l"
  by (simp add: range_boxes_def)

lemma first_cost_bound:
  assumes ok: "comp_ok c" and a: "a < 3" and f: "0 \<le> f" "f < l" and l: "l < c_n c"
    and rl: "rl_ready c a f l"
  shows "\<not> fgt (sweep_cost c a (l - f + 1) f (scan_start a f l)) (Fin FLT_MAX)"
proof -
  have b1: "compose (aabb_of (Fin FLT_MAX) (Fin (- FLT_MAX))) (boxes c ! idat c a f) = box_union (range_boxes c a f f)"
    by (simp add: range_boxes_rec1[of f f] box_union_def compose_comm)
  have i1: "bounded_box (box_union (range_boxes c a f f))"
    by (rule range_union_ok[OF ok a]) (use f l in auto)
  have i2: "bounded_box (box_union (range_boxes c a (f + 1) l))"
    by (rule range_union_ok[OF ok a]) (use f l in auto)
  have r: "rlboxes c ! idat c a (f + 1) = box_union (range_boxes c a (f + 1) l)"
    using rl f unfolding rl_ready_def by auto
  have n: "l - f < 2 ^ 31" using ok f l by (simp add: comp_ok_def)
  have cost: "sweep_cost c a (l - f + 1) f (scan_start a f l)
      = fadd (fmul (halfarea (box_union (range_boxes c a f f))) (i2f 1))
          (fmul (halfarea (box_union (range_boxes c a (f + 1) l))) (i2f (l - f)))"
    by (simp add: sweep_cost_def scan_start_def Let_def b1 r)
  show ?thesis unfolding cost
    by (rule cost_bound[OF i1 i2]) (use f n in simp_all)
qed

lemma sweep_scan_spec:
  assumes ok: "comp_ok c" and a: "a < 3" and f: "0 \<le> f" "f < l" and l: "l < c_n c"
    and rl: "rl_ready c a f l"
  shows "sw_box (sweep_scan a c f l) = box_union (range_boxes c a f (l - 1))
    \<and> sw_alltris (sweep_scan a c f l) = (\<forall>k. f \<le> k \<and> k < l \<longrightarrow> istri c ! idat c a k)
    \<and> (\<exists>jj. f \<le> jj \<and> jj < l \<and> split_at c a f l jj (sw_part (sweep_scan a c f l)))"
proof -
  define Q where "Q = (\<lambda>j st. sw_n st = j - f + 1
     \<and> sw_box st = box_union (range_boxes c a f (j - 1))
     \<and> sw_alltris st = (\<forall>k. f \<le> k \<and> k < j \<longrightarrow> istri c ! idat c a k)
     \<and> ((j = f \<and> st = scan_start a f l) \<or> (\<exists>jj. f \<le> jj \<and> jj < j \<and> split_at c a f l jj (sw_part st))))"
  have init: "Q f (scan_start a f l)"
    unfolding Q_def by (auto simp: scan_start_def box_union_def)
  have step: "Q (j + 1) (sweep_step c a (l - f + 1) j st)" if j: "f \<le> j" "j \<le> l - 1" and q: "Q j st" for j st
  proof -
    from q have n: "sw_n st = j - f + 1" and b: "sw_box st = box_union (range_boxes c a f (j - 1))"
      and t: "sw_alltris st = (\<forall>k. f \<le> k \<and> k < j \<longrightarrow> istri c ! idat c a k)"
      and p: "(j = f \<and> st = scan_start a f l) \<or> (\<exists>jj. f \<le> jj \<and> jj < j \<and> split_at c a f l jj (sw_part st))"
      unfolding Q_def by auto
    have box: "compose (sw_box st) (boxes c ! idat c a j) = box_union (range_boxes c a f j)"
      using j by (simp add: b range_boxes_rec2[of f j] box_union_snoc)
    have r: "rlboxes c ! idat c a (j + 1) = box_union (range_boxes c a (j + 1) l)"
      using rl j unfolding rl_ready_def by auto
    have tris: "(if \<not> istri c ! idat c a j then False else sw_alltris st)
        = (\<forall>k. f \<le> k \<and> k < j + 1 \<longrightarrow> istri c ! idat c a k)"
    proof -
      have "(\<forall>k. f \<le> k \<and> k < j + 1 \<longrightarrow> istri c ! idat c a k)
          \<longleftrightarrow> (\<forall>k. f \<le> k \<and> k < j \<longrightarrow> istri c ! idat c a k) \<and> istri c ! idat c a j"
        using j by (auto simp: less_le)
      then show ?thesis using t by auto
    qed
    have upd: "\<not> fgt (sweep_cost c a (l - f + 1) j st) (part_cost (sw_part st))" if "j = f"
      using p that first_cost_bound[OF ok a f l rl]
      by (auto simp: scan_start_def new_partition_def split_at_def)
    have ax: "part_axis (sw_part st) = a \<and> part_first (sw_part st) ! 0 = f \<and> length (part_first (sw_part st)) = 2
        \<and> part_last (sw_part st) ! 1 = l \<and> length (part_last (sw_part st)) = 2"
      using p by (auto simp: scan_start_def new_partition_def split_at_def)
    have lists: "(part_last (sw_part st))[0 := j] = [j, l]" "(part_first (sw_part st))[Suc 0 := j + 1] = [f, j + 1]"
    proof -
      obtain x y where pl: "part_last (sw_part st) = [x, y]"
        using ax by (cases "part_last (sw_part st)"; cases "tl (part_last (sw_part st))") auto
      obtain u v where pf: "part_first (sw_part st) = [u, v]"
        using ax by (cases "part_first (sw_part st)"; cases "tl (part_first (sw_part st))") auto
      show "(part_last (sw_part st))[0 := j] = [j, l]" using ax pl by simp
      show "(part_first (sw_part st))[Suc 0 := j + 1] = [f, j + 1]" using ax pf by simp
    qed
    show ?thesis
    proof (cases "fgt (sweep_cost c a (l - f + 1) j st) (part_cost (sw_part st))")
      case True
      then have "j \<noteq> f" using upd by auto
      then obtain jj where "f \<le> jj" "jj < j" "split_at c a f l jj (sw_part st)" using p by auto
      then show ?thesis unfolding Q_def using True j
        by (auto simp: sweep_step_def Let_def n box tris intro!: exI[of _ jj])
    next
      case False
      have "split_at c a f l j (sw_part (sweep_step c a (l - f + 1) j st))"
        using False ax by (simp add: sweep_step_def Let_def split_at_def box r lists)
      then show ?thesis unfolding Q_def using False j
        by (auto simp: sweep_step_def Let_def n box tris intro!: exI[of _ j])
    qed
  qed
  have "Q (l - 1 + 1) (fold (sweep_step c a (l - f + 1)) [f..l - 1] (scan_start a f l))"
    by (rule fold_upto_rule[where P = Q, OF init step]) (use f in auto)
  then have "Q l (sweep_scan a c f l)" by (simp add: sweep_scan_def scan_start_def)
  then show ?thesis unfolding Q_def using f by auto
qed

lemma sweep_scan_upto: "sweep_scan a c f l = scan_upto a c f l l"
  by (simp add: sweep_scan_def scan_upto_def scan_start_def)


lemma inclusion_frame: "inclusion a c f l = c\<lparr>rlboxes := rlboxes (inclusion a c f l)\<rparr>"
proof -
  have "fold (rl_step a) xs t = t\<lparr>rlboxes := rlboxes (fold (rl_step a) xs t)\<rparr>" for xs t
  proof (induction xs arbitrary: t)
    case Nil show ?case by simp
  next
    case (Cons x xs)
    have "fold (rl_step a) xs (rl_step a x t) = (rl_step a x t)\<lparr>rlboxes := rlboxes (fold (rl_step a) xs (rl_step a x t))\<rparr>"
      by (rule Cons.IH)
    also have "\<dots> = t\<lparr>rlboxes := rlboxes (fold (rl_step a) xs (rl_step a x t))\<rparr>"
      by (subst rl_step_frame) simp
    finally show ?case by simp
  qed
  from this[of "rev [f..l - 1]" "c\<lparr>rlboxes := (rlboxes c)[idat c a l := boxes c ! idat c a l]\<rparr>"]
  show ?thesis by (simp add: inclusion_def)
qed

lemma inclusion_fields [simp]:
  "ids (inclusion a c f l) = ids c" "boxes (inclusion a c f l) = boxes c"
  "istri (inclusion a c f l) = istri c" "idat (inclusion a c f l) = idat c"
  "range_boxes (inclusion a c f l) = range_boxes c"
  by (subst inclusion_frame, simp add: fun_eq_iff)+

lemma scan_basic:
  assumes "f \<le> j"
  shows "sw_box (scan_upto a c f l j) = box_union (range_boxes c a f (j - 1))
    \<and> sw_alltris (scan_upto a c f l j) = (\<forall>k. f \<le> k \<and> k < j \<longrightarrow> istri c ! idat c a k)
    \<and> part_first (sw_part (scan_upto a c f l j)) ! 0 = f
    \<and> length (part_first (sw_part (scan_upto a c f l j))) = 2
    \<and> length (part_last (sw_part (scan_upto a c f l j))) = 2"
proof -
  define Q where "Q = (\<lambda>j (st :: sweepstate). sw_box st = box_union (range_boxes c a f (j - 1))
     \<and> sw_alltris st = (\<forall>k. f \<le> k \<and> k < j \<longrightarrow> istri c ! idat c a k)
     \<and> part_first (sw_part st) ! 0 = f
     \<and> length (part_first (sw_part st)) = 2 \<and> length (part_last (sw_part st)) = 2)"
  have init: "Q f (scan_start a f l)"
    unfolding Q_def by (auto simp: scan_start_def box_union_def new_partition_def)
  have step: "Q (k + 1) (sweep_step c a (l - f + 1) k st)" if k: "f \<le> k" "k \<le> j - 1" and q: "Q k st" for k st
  proof -
    from q have b: "sw_box st = box_union (range_boxes c a f (k - 1))"
      and t: "sw_alltris st = (\<forall>i. f \<le> i \<and> i < k \<longrightarrow> istri c ! idat c a i)"
      and pf: "part_first (sw_part st) ! 0 = f"
      and ln: "length (part_first (sw_part st)) = 2" "length (part_last (sw_part st)) = 2"
      unfolding Q_def by auto
    have box: "compose (sw_box st) (boxes c ! idat c a k) = box_union (range_boxes c a f k)"
      using k by (simp add: b range_boxes_rec2[of f k] box_union_snoc)
    have tris: "(if \<not> istri c ! idat c a k then False else sw_alltris st)
        = (\<forall>i. f \<le> i \<and> i < k + 1 \<longrightarrow> istri c ! idat c a i)"
    proof -
      have "(\<forall>i. f \<le> i \<and> i < k + 1 \<longrightarrow> istri c ! idat c a i)
          \<longleftrightarrow> (\<forall>i. f \<le> i \<and> i < k \<longrightarrow> istri c ! idat c a i) \<and> istri c ! idat c a k"
        using k by (auto simp: less_le)
      then show ?thesis using t by auto
    qed
    show ?thesis
    proof (cases "fgt (sweep_cost c a (l - f + 1) k st) (part_cost (sw_part st))")
      case True
      then show ?thesis unfolding Q_def using pf ln
        by (simp add: sweep_step_def Let_def box tris)
    next
      case False
      then show ?thesis unfolding Q_def using pf ln
        by (simp add: sweep_step_def Let_def box tris nth_list_update)
    qed
  qed
  have "Q (j - 1 + 1) (fold (sweep_step c a (l - f + 1)) [f..j - 1] (scan_start a f l))"
    by (rule fold_upto_rule[where P = Q, OF init step]) (use assms in auto)
  then show ?thesis by (simp add: Q_def scan_upto_def)
qed

lemma split_at_rlboxes [simp]: "split_at (c\<lparr>rlboxes := R\<rparr>) a f l jj p = split_at c a f l jj p"
  by (simp add: split_at_def)

lemma part_shape_rlboxes [simp]: "part_shape cfg (c\<lparr>rlboxes := R\<rparr>) f l p = part_shape cfg c f l p"
  by (simp add: part_shape_def)

lemma snd_sweep: "snd (sweep cfg a c f l) = inclusion a c f l"
  by (simp add: sweep_def Let_def)

lemma inclusion_rl:
  assumes "comp_ok c" "a < 3" "0 \<le> f" "f \<le> l" "l < c_n c"
  shows "\<exists>R. length R = length (rlboxes c) \<and> inclusion a c f l = c\<lparr>rlboxes := R\<rparr>"
  using inclusion_spec[OF assms] by metis

lemma sweep_spec:
  assumes ok: "comp_ok c" and a: "a < 3" and f: "0 \<le> f" "f < l" and l: "l < c_n c"
  shows "part_shape cfg c f l (fst (sweep cfg a c f l)) \<and> part_axis (fst (sweep cfg a c f l)) = a"
proof -
  let ?c1 = "inclusion a c f l"
  have fl: "f \<le> l" using f by simp
  from inclusion_spec[OF ok a f(1) fl l]
  have fr: "?c1 = c\<lparr>rlboxes := rlboxes ?c1\<rparr>" and len: "length (rlboxes ?c1) = length (rlboxes c)"
    and rl: "\<And>k. f \<le> k \<Longrightarrow> k \<le> l \<Longrightarrow> rlboxes ?c1 ! idat c a k = box_union (range_boxes c a k l)"
    by auto
  have ok1: "comp_ok ?c1" by (subst fr) (rule comp_ok_rlboxes[OF ok len])
  have rdy: "rl_ready ?c1 a f l" unfolding rl_ready_def using rl by simp
  have cn: "c_n ?c1 = c_n c" by (subst fr) simp
  from sweep_scan_spec[OF ok1 a f _ rdy] l cn
  obtain jj where t: "sw_alltris (sweep_scan a ?c1 f l) = (\<forall>k. f \<le> k \<and> k < l \<longrightarrow> istri c ! idat c a k)"
    and jj: "f \<le> jj" "jj < l" and sp: "split_at ?c1 a f l jj (sw_part (sweep_scan a ?c1 f l))"
    by auto
  have sp': "split_at c a f l jj (sw_part (sweep_scan a ?c1 f l))"
    using sp by (subst (asm) fr) simp
  have all: "(\<forall>k. f \<le> k \<and> k \<le> l \<longrightarrow> istri c ! idat c a k)
      \<longleftrightarrow> sw_alltris (sweep_scan a ?c1 f l) \<and> istri c ! idat c a l"
    unfolding t using fl by (auto simp: less_le)
  have ax: "part_axis (sw_part (sweep_scan a ?c1 f l)) = a" using sp' by (simp add: split_at_def)
  have split_cost: "split_at c a f l jj (p\<lparr>part_cost := x\<rparr>) = split_at c a f l jj p" for p x
    by (simp add: split_at_def)
  show ?thesis
    unfolding sweep_def Let_def part_shape_def
    using a jj sp' all ax
    by (auto simp: leaf_partition_def split_cost split_at_def)
qed

lemma best_partition_spec:
  assumes ok: "comp_ok c" and f: "0 \<le> seg_first nd" "seg_first nd < seg_last nd" and l: "seg_last nd < c_n c"
  shows "part_shape cfg c (seg_first nd) (seg_last nd) (fst (best_partition cfg c nd))
    \<and> (\<exists>R. length R = length (rlboxes c) \<and> snd (best_partition cfg c nd) = c\<lparr>rlboxes := R\<rparr>)"
proof -
  let ?f = "seg_first nd" and ?l = "seg_last nd"
  have fl: "?f \<le> ?l" using f by simp
  obtain R0 where R0: "length R0 = length (rlboxes c)" "snd (sweep cfg 0 c ?f ?l) = c\<lparr>rlboxes := R0\<rparr>"
    using inclusion_rl[OF ok _ f(1) fl l, of 0] by (auto simp: snd_sweep)
  have ok0: "comp_ok (c\<lparr>rlboxes := R0\<rparr>)" by (rule comp_ok_rlboxes[OF ok R0(1)])
  obtain R1 where R1: "length R1 = length (rlboxes c)"
      "snd (sweep cfg 1 (c\<lparr>rlboxes := R0\<rparr>) ?f ?l) = c\<lparr>rlboxes := R1\<rparr>"
    using inclusion_rl[OF ok0 _ f(1) fl, of 1] l R0 by (auto simp: snd_sweep)
  have ok1: "comp_ok (c\<lparr>rlboxes := R1\<rparr>)" by (rule comp_ok_rlboxes[OF ok R1(1)])
  obtain R2 where R2: "length R2 = length (rlboxes c)"
      "snd (sweep cfg 2 (c\<lparr>rlboxes := R1\<rparr>) ?f ?l) = c\<lparr>rlboxes := R2\<rparr>"
    using inclusion_rl[OF ok1 _ f(1) fl, of 2] l R1 by (auto simp: snd_sweep)
  have s0: "part_shape cfg c ?f ?l (fst (sweep cfg 0 c ?f ?l))"
    using sweep_spec[OF ok _ f l, of 0 cfg] by simp
  have s1: "part_shape cfg c ?f ?l (fst (sweep cfg 1 (c\<lparr>rlboxes := R0\<rparr>) ?f ?l))"
    using sweep_spec[OF ok0 _ f, of 1 cfg] l by simp
  have s2: "part_shape cfg c ?f ?l (fst (sweep cfg 2 (c\<lparr>rlboxes := R1\<rparr>) ?f ?l))"
    using sweep_spec[OF ok1 _ f, of 2 cfg] l by simp
  show ?thesis
    unfolding best_partition_def Let_def using s0 s1 s2 R0 R1 R2 by auto
qed

lemma seg_ids_range: "seg_ids c a s = ids_range c a (seg_first s) (seg_last s)"
  by (simp add: seg_ids_def ids_range_def)

lemma range_boxes_ids: "range_boxes c a f l = map (\<lambda>i. boxes c ! i) (ids_range c a f l)"
  by (simp add: range_boxes_def ids_range_def)

lemma ids_range_rec2: "f \<le> l \<Longrightarrow> ids_range c a f l = ids_range c a f (l - 1) @ [idat c a l]"
  by (simp add: ids_range_def upto_rec2)

lemma ids_range_empty [simp]: "l < f \<Longrightarrow> ids_range c a f l = []"
  by (simp add: ids_range_def)

lemma ids_range_split:
  "ids_range c a f l = ids_range c a f j @ ids_range c a (j + 1) l" if "f \<le> j + 1" "j \<le> l"
proof (cases "f \<le> j")
  case True
  then show ?thesis using that upto_split2[of f j l]
    by (simp add: ids_range_def)
next
  case False
  then have "f = j + 1" using that by simp
  then show ?thesis by (simp add: ids_range_def)
qed

lemma length_ids_range [simp]: "length (ids_range c a f l) = nat (l - f + 1)"
  by (simp add: ids_range_def)

lemma nth_ids_range: "i < nat (l - f + 1) \<Longrightarrow> ids_range c a f l ! i = idat c a (f + int i)"
  by (simp add: ids_range_def)

lemma set_ids_range: "set (ids_range c a f l) = idat c a ` {f..l}"
  by (simp add: ids_range_def)

lemma distinct_ids_range:
  assumes "comp_ok c" "a < 3" "0 \<le> f" "l < c_n c"
  shows "distinct (ids_range c a f l)"
  unfolding ids_range_def distinct_map
  using idat_inj[OF assms(1,2)] assms(3,4) by (auto simp: inj_on_def)

lemma ids_range_less:
  assumes "comp_ok c" "a < 3" "0 \<le> f" "l < c_n c" "x \<in> set (ids_range c a f l)"
  shows "x < length (prims c)"
  using assms idat_less[OF assms(1,2)] by (auto simp: set_ids_range)

subsection \<open>Marking the sides\<close>

lemma fold_set_pos:
  assumes ok: "comp_ok c" and a: "a < 3" and x: "0 \<le> x" and y: "y < c_n c"
  shows "fold (set_pos a v) [x..y] c = c\<lparr>pos := pos (fold (set_pos a v) [x..y] c)\<rparr>
    \<and> length (pos (fold (set_pos a v) [x..y] c)) = length (pos c)
    \<and> (\<forall>i. pos (fold (set_pos a v) [x..y] c) ! i
          = (if i \<in> set (ids_range c a x y) then v else pos c ! i))"
proof (cases "x \<le> y + 1")
  case False
  then show ?thesis by simp
next
  case True
  define P where "P = (\<lambda>j t. t = c\<lparr>pos := pos t\<rparr> \<and> length (pos t) = length (pos c)
      \<and> (\<forall>i. pos t ! i = (if i \<in> set (ids_range c a x (j - 1)) then v else pos c ! i)))"
  have init: "P x c" unfolding P_def by simp
  have step: "P (j + 1) (set_pos a v j t)" if j: "x \<le> j" "j \<le> y" and p: "P j t" for j t
  proof -
    from p have t: "t = c\<lparr>pos := pos t\<rparr>" and len: "length (pos t) = length (pos c)"
      and v: "\<And>i. pos t ! i = (if i \<in> set (ids_range c a x (j - 1)) then v else pos c ! i)"
      unfolding P_def by auto
    have idt: "idat t a j = idat c a j" by (subst t) (simp add: idat_def)
    have lt: "idat c a j < length (pos t)"
      using idat_less[OF ok a, of j] j x y ok len by (simp add: comp_ok_def)
    have "set_pos a v j t = c\<lparr>pos := pos (set_pos a v j t)\<rparr>"
      unfolding set_pos_def by (subst t) simp
    moreover have "length (pos (set_pos a v j t)) = length (pos c)"
      by (simp add: set_pos_def len)
    moreover have "pos (set_pos a v j t) ! i = (if i \<in> set (ids_range c a x j) then v else pos c ! i)" for i
      using lt j by (auto simp: set_pos_def idt nth_list_update v ids_range_rec2[of x j])
    ultimately show ?thesis unfolding P_def by simp
  qed
  have "P (y + 1) (fold (set_pos a v) [x..y] c)"
    by (rule fold_upto_rule[where P = P, OF init step]) (use True in auto)
  then show ?thesis unfolding P_def by simp
qed

lemma ids_range_pos [simp]: "ids_range (c\<lparr>pos := P\<rparr>) a f l = ids_range c a f l"
  by (simp add: ids_range_def idat_def)

lemma comp_ok_pos: "comp_ok c \<Longrightarrow> length P = length (pos c) \<Longrightarrow> comp_ok (c\<lparr>pos := P\<rparr>)"
  by (simp add: comp_ok_def)

lemma fold_set_pos_ex:
  assumes ok: "comp_ok c" and a: "a < 3" and x: "0 \<le> x" and y: "y < c_n c"
  shows "\<exists>P. fold (set_pos a v) [x..y] c = c\<lparr>pos := P\<rparr> \<and> length P = length (pos c)
    \<and> (\<forall>i. P ! i = (if i \<in> set (ids_range c a x y) then v else pos c ! i))"
  using fold_set_pos[OF assms, of v] by metis

lemma mark_pos_spec:
  assumes ok: "comp_ok c" and a: "part_axis best < 3" and f: "0 \<le> f" "f \<le> jj" "jj < l" and l: "l < c_n c"
    and pf: "part_first best = [f, jj + 1]" and pl: "part_last best = [jj, l]"
  shows "\<exists>P. mark_pos best c = c\<lparr>pos := P\<rparr> \<and> length P = length (pos c)
    \<and> (\<forall>i \<in> set (ids_range c (part_axis best) f jj). P ! i = 0)
    \<and> (\<forall>i \<in> set (ids_range c (part_axis best) (jj + 1) l). P ! i = 1)"
proof -
  let ?a = "part_axis best"
  have jl: "jj < c_n c" using f l by simp
  from fold_set_pos_ex[OF ok a f(1) jl, of 0]
  obtain P1 where c1: "fold (set_pos ?a 0) [f..jj] c = c\<lparr>pos := P1\<rparr>" and len1: "length P1 = length (pos c)"
    and v1: "\<And>i. P1 ! i = (if i \<in> set (ids_range c ?a f jj) then 0 else pos c ! i)"
    by auto
  have ok1: "comp_ok (c\<lparr>pos := P1\<rparr>)" by (rule comp_ok_pos[OF ok len1])
  have j0: "0 \<le> jj + 1" using f by simp
  from fold_set_pos_ex[OF ok1 a j0, of l "Suc 0"] l
  obtain P2 where c2: "fold (set_pos ?a (Suc 0)) [jj + 1..l] (c\<lparr>pos := P1\<rparr>) = c\<lparr>pos := P2\<rparr>"
    and len2: "length P2 = length (pos c)"
    and v2: "\<And>i. P2 ! i = (if i \<in> set (ids_range c ?a (jj + 1) l) then Suc 0 else P1 ! i)"
    using len1 by auto
  have m: "mark_pos best c = c\<lparr>pos := P2\<rparr>"
    by (simp add: mark_pos_def pf pl c1 c2)
  have disj: "set (ids_range c ?a f jj) \<inter> set (ids_range c ?a (jj + 1) l) = {}"
    using idat_inj[OF ok a] f l by (auto simp: set_ids_range)
  have "\<forall>i \<in> set (ids_range c ?a f jj). P2 ! i = 0"
    using disj by (auto simp: v2 v1)
  moreover have "\<forall>i \<in> set (ids_range c ?a (jj + 1) l). P2 ! i = 1"
    by (simp add: v2)
  ultimately show ?thesis using m len2 by blast
qed

subsection \<open>Reordering one axis\<close>

lemma set_id_frame:
  "d0 < length (ids c) \<Longrightarrow>
   set_id (c\<lparr>ids := (ids c)[d0 := Y], tmpids := T\<rparr>) d0 k x
     = c\<lparr>ids := (ids c)[d0 := Y[nat k := x]], tmpids := T\<rparr>"
  by (simp add: set_id_def)

lemma idat_frame:
  "d0 < length (ids c) \<Longrightarrow> idat (c\<lparr>ids := (ids c)[d0 := Y], tmpids := T\<rparr>) d0 k = Y ! nat k"
  by (simp add: idat_def)

lemma reorder_scan_spec:
  assumes ok: "comp_ok c" and d0: "d0 < 3" and f: "0 \<le> f" "f \<le> l + 1" and l: "l < c_n c"
  defines "X \<equiv> ids c ! d0"
  defines "mid \<equiv> ids_range c d0 f l"
  shows "\<exists>Y T. ro_comp (fold (reorder_scan d0 f) [f..l] \<lparr>ro_comp = c, leftnum = 0, rightnum = 0\<rparr>)
        = c\<lparr>ids := (ids c)[d0 := Y], tmpids := T\<rparr>
    \<and> length Y = length X \<and> length T = length (tmpids c)
    \<and> leftnum (fold (reorder_scan d0 f) [f..l] \<lparr>ro_comp = c, leftnum = 0, rightnum = 0\<rparr>)
        = int (length (filter (onleft c) mid))
    \<and> rightnum (fold (reorder_scan d0 f) [f..l] \<lparr>ro_comp = c, leftnum = 0, rightnum = 0\<rparr>)
        = int (length (filter (Not \<circ> onleft c) mid))
    \<and> (\<forall>i. i < nat f \<or> nat (l + 1) \<le> i \<longrightarrow> Y ! i = X ! i)
    \<and> (\<forall>i < length (filter (onleft c) mid). Y ! (nat f + i) = filter (onleft c) mid ! i)
    \<and> (\<forall>i < length (filter (Not \<circ> onleft c) mid). T ! i = filter (Not \<circ> onleft c) mid ! i)"
proof -
  define pre where "pre = (\<lambda>j. ids_range c d0 f (j - 1))"
  define I where "I = (\<lambda>j (s :: reorderstate). \<exists>Y T.
      ro_comp s = c\<lparr>ids := (ids c)[d0 := Y], tmpids := T\<rparr>
    \<and> length Y = length X \<and> length T = length (tmpids c)
    \<and> leftnum s = int (length (filter (onleft c) (pre j)))
    \<and> rightnum s = int (length (filter (Not \<circ> onleft c) (pre j)))
    \<and> (\<forall>i. i < nat f \<or> nat j \<le> i \<longrightarrow> Y ! i = X ! i)
    \<and> (\<forall>i < length (filter (onleft c) (pre j)). Y ! (nat f + i) = filter (onleft c) (pre j) ! i)
    \<and> (\<forall>i < length (filter (Not \<circ> onleft c) (pre j)). T ! i = filter (Not \<circ> onleft c) (pre j) ! i))"
  have l3: "length (ids c) = 3" using ok by (simp add: comp_ok_def)
  have d0l: "d0 < length (ids c)" using d0 l3 by simp
  have N: "length X = length (prims c)" "length (tmpids c) = length (prims c)" "c_n c = int (length (prims c))"
    using ok d0 ids_perm(1)[OF ok d0] by (simp_all add: comp_ok_def X_def)
  have init: "I f \<lparr>ro_comp = c, leftnum = 0, rightnum = 0\<rparr>"
    unfolding I_def pre_def
    by (rule exI[of _ X], rule exI[of _ "tmpids c"]) (simp add: X_def)
  have step: "I (j + 1) (reorder_scan d0 f j s)" if j: "f \<le> j" "j \<le> l" and Is: "I j s" for j s
  proof -
    from Is obtain Y T where
      fr: "ro_comp s = c\<lparr>ids := (ids c)[d0 := Y], tmpids := T\<rparr>"
      and lY: "length Y = length X" and lT: "length T = length (tmpids c)"
      and ln: "leftnum s = int (length (filter (onleft c) (pre j)))"
      and rn: "rightnum s = int (length (filter (Not \<circ> onleft c) (pre j)))"
      and un: "\<And>i. i < nat f \<or> nat j \<le> i \<Longrightarrow> Y ! i = X ! i"
      and lv: "\<And>i. i < length (filter (onleft c) (pre j)) \<Longrightarrow> Y ! (nat f + i) = filter (onleft c) (pre j) ! i"
      and rv: "\<And>i. i < length (filter (Not \<circ> onleft c) (pre j)) \<Longrightarrow> T ! i = filter (Not \<circ> onleft c) (pre j) ! i"
      unfolding I_def by blast
    let ?nl = "length (filter (onleft c) (pre j))"
    let ?nr = "length (filter (Not \<circ> onleft c) (pre j))"
    have lp: "length (pre j) = nat (j - f)" using j by (simp add: pre_def)
    have nl: "?nl \<le> nat (j - f)" using length_filter_le[of "onleft c" "pre j"] lp by simp
    have nr: "?nr \<le> nat (j - f)" using length_filter_le[of "Not \<circ> onleft c" "pre j"] lp by simp
    have x: "idat (c\<lparr>ids := (ids c)[d0 := Y], tmpids := T\<rparr>) d0 j = idat c d0 j"
      unfolding idat_frame[OF d0l] using un[of "nat j"] by (simp add: X_def idat_def)
    have ps: "pos (ro_comp s) = pos c" by (simp add: fr)
    have pre': "pre (j + 1) = pre j @ [idat c d0 j]"
      using j by (simp add: pre_def ids_range_rec2[of f j])
    show ?thesis
    proof (cases "onleft c (idat c d0 j)")
      case True
      have rs: "reorder_scan d0 f j s
          = s\<lparr>ro_comp := c\<lparr>ids := (ids c)[d0 := Y[nat f + ?nl := idat c d0 j]], tmpids := T\<rparr>,
              leftnum := leftnum s + 1\<rparr>"
      proof -
        have "nat (f + int ?nl) = nat f + ?nl" using f by (simp add: nat_add_distrib)
        then show ?thesis
          using True by (simp add: reorder_scan_def x ps onleft_def ln fr set_id_frame[OF d0l])
      qed
      have fl: "filter (onleft c) (pre (j + 1)) = filter (onleft c) (pre j) @ [idat c d0 j]"
        and fr': "filter (Not \<circ> onleft c) (pre (j + 1)) = filter (Not \<circ> onleft c) (pre j)"
        using True by (simp_all add: pre')
      have bound: "nat f + ?nl < length Y" using nl j l f lY N by simp
      show ?thesis unfolding I_def
      proof (rule exI[of _ "Y[nat f + ?nl := idat c d0 j]"], rule exI[of _ T], intro conjI allI impI)
        show "ro_comp (reorder_scan d0 f j s) = c\<lparr>ids := (ids c)[d0 := Y[nat f + ?nl := idat c d0 j]], tmpids := T\<rparr>"
          by (simp add: rs)
        show "length (Y[nat f + ?nl := idat c d0 j]) = length X" by (simp add: lY)
        show "length T = length (tmpids c)" by (rule lT)
        show "leftnum (reorder_scan d0 f j s) = int (length (filter (onleft c) (pre (j + 1))))"
          by (simp add: rs ln fl)
        show "rightnum (reorder_scan d0 f j s) = int (length (filter (Not \<circ> onleft c) (pre (j + 1))))"
          by (simp add: rs rn fr')
        show "Y[nat f + ?nl := idat c d0 j] ! i = X ! i" if "i < nat f \<or> nat (j + 1) \<le> i" for i
        proof -
          have "i \<noteq> nat f + ?nl" using that nl j f by auto
          moreover have "i < nat f \<or> nat j \<le> i" using that by auto
          ultimately show ?thesis using un[of i] by simp
        qed
        show "Y[nat f + ?nl := idat c d0 j] ! (nat f + i) = filter (onleft c) (pre (j + 1)) ! i"
          if "i < length (filter (onleft c) (pre (j + 1)))" for i
        proof (cases "i = ?nl")
          case True
          then show ?thesis using bound by (simp add: fl nth_append)
        next
          case False
          then have "i < ?nl" using that by (simp add: fl)
          then show ?thesis using lv[of i] by (simp add: fl nth_append)
        qed
        show "T ! i = filter (Not \<circ> onleft c) (pre (j + 1)) ! i"
          if "i < length (filter (Not \<circ> onleft c) (pre (j + 1)))" for i
          using that rv[of i] by (simp add: fr')
      qed
    next
      case False
      have rs: "reorder_scan d0 f j s
          = s\<lparr>ro_comp := c\<lparr>ids := (ids c)[d0 := Y], tmpids := T[?nr := idat c d0 j]\<rparr>,
              rightnum := rightnum s + 1\<rparr>"
        using False by (simp add: reorder_scan_def x ps onleft_def rn fr)
      have fl: "filter (onleft c) (pre (j + 1)) = filter (onleft c) (pre j)"
        and fr': "filter (Not \<circ> onleft c) (pre (j + 1)) = filter (Not \<circ> onleft c) (pre j) @ [idat c d0 j]"
        using False by (simp_all add: pre')
      have bound: "?nr < length T" using nr j l f lT N by simp
      show ?thesis unfolding I_def
      proof (rule exI[of _ Y], rule exI[of _ "T[?nr := idat c d0 j]"], intro conjI allI impI)
        show "ro_comp (reorder_scan d0 f j s) = c\<lparr>ids := (ids c)[d0 := Y], tmpids := T[?nr := idat c d0 j]\<rparr>"
          by (simp add: rs)
        show "length Y = length X" by (rule lY)
        show "length (T[?nr := idat c d0 j]) = length (tmpids c)" by (simp add: lT)
        show "leftnum (reorder_scan d0 f j s) = int (length (filter (onleft c) (pre (j + 1))))"
          by (simp add: rs ln fl)
        show "rightnum (reorder_scan d0 f j s) = int (length (filter (Not \<circ> onleft c) (pre (j + 1))))"
          by (simp add: rs rn fr')
        show "Y ! i = X ! i" if "i < nat f \<or> nat (j + 1) \<le> i" for i
        proof -
          have "i < nat f \<or> nat j \<le> i" using that by auto
          then show ?thesis by (rule un)
        qed
        show "Y ! (nat f + i) = filter (onleft c) (pre (j + 1)) ! i"
          if "i < length (filter (onleft c) (pre (j + 1)))" for i
          using that lv[of i] by (simp add: fl)
        show "T[?nr := idat c d0 j] ! i = filter (Not \<circ> onleft c) (pre (j + 1)) ! i"
          if "i < length (filter (Not \<circ> onleft c) (pre (j + 1)))" for i
        proof (cases "i = ?nr")
          case True
          then show ?thesis using bound by (simp add: fr' nth_append)
        next
          case False
          then have "i < ?nr" using that by (simp add: fr')
          then show ?thesis using rv[of i] False by (simp add: fr' nth_append)
        qed
      qed
    qed
  qed
  have "I (l + 1) (fold (reorder_scan d0 f) [f..l] \<lparr>ro_comp = c, leftnum = 0, rightnum = 0\<rparr>)"
    by (rule fold_upto_rule[where P = I, OF init step]) (use f in auto)
  then show ?thesis unfolding I_def pre_def mid_def by simp
qed

lemma reorder_axis_spec:
  assumes ok: "comp_ok c" and d0: "d0 < 3" and f: "0 \<le> seg_first nd" "seg_first nd \<le> seg_last nd"
    and l: "seg_last nd < c_n c"
  defines "X \<equiv> ids c ! d0"
  defines "mid \<equiv> seg_ids c d0 nd"
  shows "\<exists>Y T. ro_comp (reorder_axis d0 nd c) = c\<lparr>ids := (ids c)[d0 := Y], tmpids := T\<rparr>
    \<and> length Y = length X \<and> length T = length (tmpids c)
    \<and> leftnum (reorder_axis d0 nd c) = int (length (filter (onleft c) mid))
    \<and> rightnum (reorder_axis d0 nd c) = int (length (filter (Not \<circ> onleft c) mid))
    \<and> (\<forall>i. i < nat (seg_first nd) \<or> nat (seg_last nd) < i \<longrightarrow> Y ! i = X ! i)
    \<and> (\<forall>i < length (filter (onleft c) mid). Y ! (nat (seg_first nd) + i) = filter (onleft c) mid ! i)
    \<and> (\<forall>i < length (filter (Not \<circ> onleft c) mid).
          Y ! (nat (seg_first nd) + length (filter (onleft c) mid) + i) = filter (Not \<circ> onleft c) mid ! i)"
proof -
  let ?f = "seg_first nd" and ?l = "seg_last nd"
  let ?s = "fold (reorder_scan d0 ?f) [?f..?l] \<lparr>ro_comp = c, leftnum = 0, rightnum = 0\<rparr>"
  let ?nl = "length (filter (onleft c) mid)"
  let ?nr = "length (filter (Not \<circ> onleft c) mid)"
  have mid: "mid = ids_range c d0 ?f ?l" by (simp add: mid_def seg_ids_range)
  have f1: "?f \<le> ?l + 1" using f by simp
  from reorder_scan_spec[OF ok d0 f(1) f1 l]
  obtain Y T where fr: "ro_comp ?s = c\<lparr>ids := (ids c)[d0 := Y], tmpids := T\<rparr>"
    and lY: "length Y = length X" and lT: "length T = length (tmpids c)"
    and ln: "leftnum ?s = int ?nl" and rn: "rightnum ?s = int ?nr"
    and un: "\<And>i. i < nat ?f \<or> nat (?l + 1) \<le> i \<Longrightarrow> Y ! i = X ! i"
    and lv: "\<And>i. i < ?nl \<Longrightarrow> Y ! (nat ?f + i) = filter (onleft c) mid ! i"
    and rv: "\<And>i. i < ?nr \<Longrightarrow> T ! i = filter (Not \<circ> onleft c) mid ! i"
    unfolding X_def mid by blast
  have l3: "length (ids c) = 3" using ok by (simp add: comp_ok_def)
  have d0l: "d0 < length (ids c)" using d0 l3 by simp
  have N: "length X = length (prims c)" "c_n c = int (length (prims c))"
    using ok d0 ids_perm(1)[OF ok d0] by (simp_all add: comp_ok_def X_def)
  have sum: "?nl + ?nr = nat (?l - ?f + 1)"
    using sum_length_filter_compl[of "onleft c" mid] by (simp add: mid comp_def)
  define J where "J = (\<lambda>j t. \<exists>Y'. t = c\<lparr>ids := (ids c)[d0 := Y'], tmpids := T\<rparr> \<and> length Y' = length X
      \<and> (\<forall>i. i < nat ?f + ?nl \<or> nat j \<le> i \<longrightarrow> Y' ! i = Y ! i)
      \<and> (\<forall>i. nat ?f + ?nl \<le> i \<and> i < nat j \<longrightarrow> Y' ! i = T ! (i - nat ?f - ?nl)))"
  have init: "J (?f + int ?nl) (ro_comp ?s)"
    unfolding J_def fr using f by (intro exI[of _ Y]) (auto simp: lY nat_add_distrib)
  have step: "J (j + 1) (reorder_copy d0 ?f (int ?nl) j t)"
    if j: "?f + int ?nl \<le> j" "j \<le> ?l" and Jt: "J j t" for j t
  proof -
    from Jt obtain Y' where t: "t = c\<lparr>ids := (ids c)[d0 := Y'], tmpids := T\<rparr>"
      and lY': "length Y' = length X"
      and a: "\<And>i. i < nat ?f + ?nl \<or> nat j \<le> i \<Longrightarrow> Y' ! i = Y ! i"
      and b: "\<And>i. nat ?f + ?nl \<le> i \<and> i < nat j \<Longrightarrow> Y' ! i = T ! (i - nat ?f - ?nl)"
      unfolding J_def by blast
    have nj: "nat ?f + ?nl \<le> nat j" using j f by linarith
    have idx: "nat (j - int ?nl - ?f) = nat j - nat ?f - ?nl" using j f by linarith
    have bound: "nat j < length Y'" using j l lY' N f by simp
    have rc: "reorder_copy d0 ?f (int ?nl) j t
        = c\<lparr>ids := (ids c)[d0 := Y'[nat j := T ! (nat j - nat ?f - ?nl)]], tmpids := T\<rparr>"
      unfolding reorder_copy_def by (subst t, subst t) (simp add: set_id_frame[OF d0l] idx)
    show ?thesis unfolding J_def
    proof (rule exI[of _ "Y'[nat j := T ! (nat j - nat ?f - ?nl)]"], intro conjI allI impI)
      show "reorder_copy d0 ?f (int ?nl) j t = c\<lparr>ids := (ids c)[d0 := Y'[nat j := T ! (nat j - nat ?f - ?nl)]], tmpids := T\<rparr>"
        by (rule rc)
      show "length (Y'[nat j := T ! (nat j - nat ?f - ?nl)]) = length X" by (simp add: lY')
      show "Y'[nat j := T ! (nat j - nat ?f - ?nl)] ! i = Y ! i" if "i < nat ?f + ?nl \<or> nat (j + 1) \<le> i" for i
      proof -
        have "i \<noteq> nat j" using that nj j f by auto
        moreover have "i < nat ?f + ?nl \<or> nat j \<le> i" using that by auto
        ultimately show ?thesis using a[of i] by simp
      qed
      show "Y'[nat j := T ! (nat j - nat ?f - ?nl)] ! i = T ! (i - nat ?f - ?nl)"
        if "nat ?f + ?nl \<le> i \<and> i < nat (j + 1)" for i
      proof (cases "i = nat j")
        case True
        then show ?thesis using bound by simp
      next
        case False
        then have "nat ?f + ?nl \<le> i \<and> i < nat j" using that by auto
        then show ?thesis using b[of i] False by simp
      qed
    qed
  qed
  have "J (?l + 1) (fold (reorder_copy d0 ?f (int ?nl)) [?f + int ?nl..?l] (ro_comp ?s))"
    by (rule fold_upto_rule[where P = J, OF init step]) (use sum f in auto)
  then obtain Y' where t: "fold (reorder_copy d0 ?f (int ?nl)) [?f + int ?nl..?l] (ro_comp ?s)
        = c\<lparr>ids := (ids c)[d0 := Y'], tmpids := T\<rparr>"
      and lY': "length Y' = length X"
      and a: "\<And>i. i < nat ?f + ?nl \<or> nat (?l + 1) \<le> i \<Longrightarrow> Y' ! i = Y ! i"
      and b: "\<And>i. nat ?f + ?nl \<le> i \<and> i < nat (?l + 1) \<Longrightarrow> Y' ! i = T ! (i - nat ?f - ?nl)"
    unfolding J_def by blast
  have ra: "reorder_axis d0 nd c = ?s\<lparr>ro_comp := c\<lparr>ids := (ids c)[d0 := Y'], tmpids := T\<rparr>\<rparr>"
    by (simp add: reorder_axis_def Let_def ln t)
  show ?thesis
  proof (rule exI[of _ Y'], rule exI[of _ T], intro conjI allI impI)
    show "ro_comp (reorder_axis d0 nd c) = c\<lparr>ids := (ids c)[d0 := Y'], tmpids := T\<rparr>" by (simp add: ra)
    show "length Y' = length X" by (rule lY')
    show "length T = length (tmpids c)" by (rule lT)
    show "leftnum (reorder_axis d0 nd c) = int ?nl" by (simp add: ra ln)
    show "rightnum (reorder_axis d0 nd c) = int ?nr" by (simp add: ra rn)
    show "Y' ! i = X ! i" if "i < nat ?f \<or> nat ?l < i" for i
    proof -
      have 1: "i < nat ?f + ?nl \<or> nat (?l + 1) \<le> i" using that f by auto
      have 2: "i < nat ?f \<or> nat (?l + 1) \<le> i" using that f by auto
      show ?thesis using a[OF 1] un[OF 2] by simp
    qed
    show "Y' ! (nat ?f + i) = filter (onleft c) mid ! i" if "i < ?nl" for i
      using a[of "nat ?f + i"] lv[of i] that by simp
    show "Y' ! (nat ?f + ?nl + i) = filter (Not \<circ> onleft c) mid ! i" if "i < ?nr" for i
    proof -
      have "nat ?f + ?nl + i < nat (?l + 1)" using that sum f by linarith
      then show ?thesis using b[of "nat ?f + ?nl + i"] rv[of i] that by simp
    qed
  qed
qed

lemma ids_range_take_drop:
  assumes "0 \<le> f" "f \<le> l + 1" "nat l < length (ids c ! a)"
  shows "ids_range c a f l = take (nat (l - f + 1)) (drop (nat f) (ids c ! a))"
proof (rule nth_equalityI)
  show "length (ids_range c a f l) = length (take (nat (l - f + 1)) (drop (nat f) (ids c ! a)))"
    using assms by auto
  fix i assume "i < length (ids_range c a f l)"
  then have i: "i < nat (l - f + 1)" by simp
  then have "nat f + i < length (ids c ! a)" using assms by linarith
  then show "ids_range c a f l ! i = take (nat (l - f + 1)) (drop (nat f) (ids c ! a)) ! i"
    using i assms by (simp add: nth_ids_range idat_def nat_add_distrib)
qed

lemma list_three_parts:
  assumes "0 \<le> f" "f \<le> l" "nat l < length (ids c ! a)"
  shows "ids c ! a = take (nat f) (ids c ! a) @ ids_range c a f l @ drop (Suc (nat l)) (ids c ! a)"
proof -
  let ?X = "ids c ! a"
  have k: "nat (l - f + 1) + nat f = Suc (nat l)" using assms by linarith
  have "drop (nat f) ?X = take (nat (l - f + 1)) (drop (nat f) ?X) @ drop (nat (l - f + 1)) (drop (nat f) ?X)"
    by (simp only: append_take_drop_id)
  also have "drop (nat (l - f + 1)) (drop (nat f) ?X) = drop (Suc (nat l)) ?X"
    by (simp add: k)
  finally have "drop (nat f) ?X = ids_range c a f l @ drop (Suc (nat l)) ?X"
    using assms by (simp add: ids_range_take_drop)
  then have "take (nat f) ?X @ drop (nat f) ?X = take (nat f) ?X @ ids_range c a f l @ drop (Suc (nat l)) ?X"
    by (simp only:)
  then show ?thesis by (simp only: append_take_drop_id)
qed

lemma nth_three:
  "length A = a \<Longrightarrow> length M = m \<Longrightarrow>
   (A @ M @ D) ! i = (if i < a then A ! i else if i < a + m then M ! (i - a) else D ! (i - a - m))"
  by (auto simp: nth_append)

lemma reorder_axis_lists:
  assumes ok: "comp_ok c" and d0: "d0 < 3" and f: "0 \<le> seg_first nd" "seg_first nd \<le> seg_last nd"
    and l: "seg_last nd < c_n c"
  defines "mid \<equiv> seg_ids c d0 nd"
  shows "\<exists>Y T. ro_comp (reorder_axis d0 nd c) = c\<lparr>ids := (ids c)[d0 := Y], tmpids := T\<rparr>
    \<and> length T = length (tmpids c) \<and> mset Y = mset (ids c ! d0)
    \<and> leftnum (reorder_axis d0 nd c) = int (length (filter (onleft c) mid))
    \<and> rightnum (reorder_axis d0 nd c) = int (length (filter (Not \<circ> onleft c) mid))
    \<and> (\<forall>i. i < nat (seg_first nd) \<or> nat (seg_last nd) < i \<longrightarrow> Y ! i = ids c ! d0 ! i)
    \<and> map (\<lambda>j. Y ! nat j) [seg_first nd..seg_first nd + int (length (filter (onleft c) mid)) - 1]
        = filter (onleft c) mid
    \<and> map (\<lambda>j. Y ! nat j) [seg_first nd + int (length (filter (onleft c) mid))..seg_last nd]
        = filter (Not \<circ> onleft c) mid"
proof -
  let ?f = "seg_first nd" and ?l = "seg_last nd"
  let ?X = "ids c ! d0"
  let ?L = "filter (onleft c) mid" and ?R = "filter (Not \<circ> onleft c) mid"
  from reorder_axis_spec[OF ok d0 f l]
  obtain Y T where fr: "ro_comp (reorder_axis d0 nd c) = c\<lparr>ids := (ids c)[d0 := Y], tmpids := T\<rparr>"
    and lY: "length Y = length ?X" and lT: "length T = length (tmpids c)"
    and ln: "leftnum (reorder_axis d0 nd c) = int (length ?L)"
    and rn: "rightnum (reorder_axis d0 nd c) = int (length ?R)"
    and un: "\<And>i. i < nat ?f \<or> nat ?l < i \<Longrightarrow> Y ! i = ?X ! i"
    and lv: "\<And>i. i < length ?L \<Longrightarrow> Y ! (nat ?f + i) = ?L ! i"
    and rv: "\<And>i. i < length ?R \<Longrightarrow> Y ! (nat ?f + length ?L + i) = ?R ! i"
    unfolding mid_def by blast
  have mid: "mid = ids_range c d0 ?f ?l" by (simp add: mid_def seg_ids_range)
  have N: "length ?X = length (prims c)" "c_n c = int (length (prims c))"
    using ok ids_perm(1)[OF ok d0] by (simp_all add: comp_ok_def)
  have sum: "length ?L + length ?R = nat (?l - ?f + 1)"
    using sum_length_filter_compl[of "onleft c" mid] by (simp add: mid comp_def)
  have nl: "nat ?l < length ?X" using l f N by simp
  have f1: "?f \<le> ?l + 1" using f by simp
  have Yeq: "Y = take (nat ?f) ?X @ (?L @ ?R) @ drop (Suc (nat ?l)) ?X"
  proof (rule nth_equalityI)
    show len: "length Y = length (take (nat ?f) ?X @ (?L @ ?R) @ drop (Suc (nat ?l)) ?X)"
      using lY sum nl f by simp
    fix i assume i: "i < length Y"
    have m: "min (length ?X) (nat ?f) = nat ?f" using nl f by simp
    have la: "length (take (nat ?f) ?X) = nat ?f" using m by simp
    have lm: "length (?L @ ?R) = length ?L + length ?R" by simp
    note n3 = nth_three[OF la lm, of "drop (Suc (nat ?l)) ?X" i]
    show "Y ! i = (take (nat ?f) ?X @ (?L @ ?R) @ drop (Suc (nat ?l)) ?X) ! i"
    proof -
      consider "i < nat ?f" | "nat ?f \<le> i" "i < nat ?f + length ?L"
        | "nat ?f + length ?L \<le> i" "i \<le> nat ?l" | "nat ?l < i" by linarith
      then show ?thesis
      proof cases
        case 1
        then show ?thesis unfolding n3 using un[of i] by simp
      next
        case 2
        then have a: "\<not> i < nat ?f" "i - nat ?f < length ?L" "i < nat ?f + (length ?L + length ?R)"
          by linarith+
        have "Y ! (nat ?f + (i - nat ?f)) = ?L ! (i - nat ?f)" by (rule lv[OF a(2)])
        then show ?thesis unfolding n3 using 2 a by (simp add: nth_append)
      next
        case 3
        then have a: "\<not> i < nat ?f" "\<not> i - nat ?f < length ?L"
          "i - nat ?f - length ?L < length ?R" "i < nat ?f + (length ?L + length ?R)"
          using sum f by linarith+
        have "Y ! (nat ?f + length ?L + (i - nat ?f - length ?L)) = ?R ! (i - nat ?f - length ?L)"
          by (rule rv[OF a(3)])
        then show ?thesis unfolding n3 using 3 a by (simp add: nth_append)
      next
        case 4
        then have a: "\<not> i < nat ?f" "\<not> i < nat ?f + (length ?L + length ?R)"
          using sum f by linarith+
        have b: "Suc (nat ?l) + (i - nat ?f - (length ?L + length ?R)) = i" using 4 sum f by linarith
        have "drop (Suc (nat ?l)) ?X ! (i - nat ?f - (length ?L + length ?R)) = ?X ! i"
          using i lY b by simp
        then show ?thesis unfolding n3 using a un[of i] 4 by simp
      qed
    qed
  qed
  have "mset Y = mset (take (nat ?f) ?X) + mset mid + mset (drop (Suc (nat ?l)) ?X)"
    unfolding Yeq by (simp add: comp_def)
  also have "\<dots> = mset (take (nat ?f) ?X @ mid @ drop (Suc (nat ?l)) ?X)" by simp
  also have "take (nat ?f) ?X @ mid @ drop (Suc (nat ?l)) ?X = ?X"
    unfolding mid using list_three_parts[OF f(1) f(2) nl] by simp
  finally have ms: "mset Y = mset ?X" .
  have m1: "map (\<lambda>j. Y ! nat j) [?f..?f + int (length ?L) - 1] = ?L"
  proof (rule nth_equalityI)
    show "length (map (\<lambda>j. Y ! nat j) [?f..?f + int (length ?L) - 1]) = length ?L" by simp
    fix i assume "i < length (map (\<lambda>j. Y ! nat j) [?f..?f + int (length ?L) - 1])"
    then have i: "i < length ?L" by simp
    then have "[?f..?f + int (length ?L) - 1] ! i = ?f + int i" by (intro nth_upto) simp
    then show "map (\<lambda>j. Y ! nat j) [?f..?f + int (length ?L) - 1] ! i = ?L ! i"
      using i lv[OF i] f by (simp add: nat_add_distrib)
  qed
  have m2: "map (\<lambda>j. Y ! nat j) [?f + int (length ?L)..?l] = ?R"
  proof (rule nth_equalityI)
    show len: "length (map (\<lambda>j. Y ! nat j) [?f + int (length ?L)..?l]) = length ?R"
      using sum by simp
    fix i assume "i < length (map (\<lambda>j. Y ! nat j) [?f + int (length ?L)..?l])"
    then have i: "i < length ?R" using len by simp
    then have "[?f + int (length ?L)..?l] ! i = ?f + int (length ?L) + int i"
      using sum by (intro nth_upto) linarith
    then show "map (\<lambda>j. Y ! nat j) [?f + int (length ?L)..?l] ! i = ?R ! i"
      using i rv[OF i] f sum by (simp add: nat_add_distrib)
  qed
  show ?thesis
    using fr lT ms ln rn un m1 m2 by blast
qed

lemma filter_side_mset:
  assumes mk: "marked c a f jj l" and f: "f \<le> jj + 1" "jj \<le> l"
    and ms: "mset (ids_range c d f l) = mset (ids_range c a f l)"
  shows "mset (filter (onleft c) (ids_range c d f l)) = mset (ids_range c a f jj)"
    "mset (filter (Not \<circ> onleft c) (ids_range c d f l)) = mset (ids_range c a (jj + 1) l)"
proof -
  have sp: "ids_range c a f l = ids_range c a f jj @ ids_range c a (jj + 1) l"
    by (rule ids_range_split[OF f])
  have L: "filter (onleft c) (ids_range c a f jj) = ids_range c a f jj"
    "filter (onleft c) (ids_range c a (jj + 1) l) = []"
    "filter (Not \<circ> onleft c) (ids_range c a f jj) = []"
    "filter (Not \<circ> onleft c) (ids_range c a (jj + 1) l) = ids_range c a (jj + 1) l"
    using mk by (auto simp: marked_def onleft_def filter_empty_conv filter_id_conv)
  have "mset (filter (onleft c) (ids_range c d f l)) = filter_mset (onleft c) (mset (ids_range c a f l))"
    by (simp add: ms[symmetric])
  also have "\<dots> = mset (filter (onleft c) (ids_range c a f l))" by simp
  finally show "mset (filter (onleft c) (ids_range c d f l)) = mset (ids_range c a f jj)"
    by (simp add: sp L)
  have "mset (filter (Not \<circ> onleft c) (ids_range c d f l)) = filter_mset (Not \<circ> onleft c) (mset (ids_range c d f l))"
    by (simp only: mset_filter)
  also have "\<dots> = filter_mset (Not \<circ> onleft c) (mset (ids_range c a f l))"
    by (simp only: ms)
  also have "\<dots> = mset (filter (Not \<circ> onleft c) (ids_range c a f l))" by (simp only: mset_filter)
  finally show "mset (filter (Not \<circ> onleft c) (ids_range c d f l)) = mset (ids_range c a (jj + 1) l)"
    by (simp add: sp L)
qed

lemma comp_ok_ids:
  assumes "comp_ok c" "d0 < 3" "mset Y = mset (ids c ! d0)" "length T = length (tmpids c)"
  shows "comp_ok (c\<lparr>ids := (ids c)[d0 := Y], tmpids := T\<rparr>)"
  using assms by (auto simp: comp_ok_def nth_list_update)

lemma sortkey_frame [simp]: "sortkey (c\<lparr>ids := I, tmpids := T\<rparr>) = sortkey c"
  by (simp add: sortkey_def fun_eq_iff)

lemma onleft_frame [simp]: "onleft (c\<lparr>ids := I, tmpids := T\<rparr>) = onleft c"
  by (simp add: onleft_def fun_eq_iff)

lemma marked_frame:
  "d0 < length (ids c) \<Longrightarrow> a \<noteq> d0 \<Longrightarrow>
   marked (c\<lparr>ids := (ids c)[d0 := Y], tmpids := T\<rparr>) a f jj l = marked c a f jj l"
  by (simp add: marked_def ids_range_def idat_def)

lemma ids_range_frame_other:
  "d0 < length (ids c) \<Longrightarrow> a \<noteq> d0 \<Longrightarrow>
   ids_range (c\<lparr>ids := (ids c)[d0 := Y], tmpids := T\<rparr>) a x y = ids_range c a x y"
  by (simp add: ids_range_def idat_def)

lemma ids_range_frame_same:
  "d0 < length (ids c) \<Longrightarrow>
   ids_range (c\<lparr>ids := (ids c)[d0 := Y], tmpids := T\<rparr>) d0 x y = map (\<lambda>j. Y ! nat j) [x..y]"
  by (simp add: ids_range_def idat_def)

text \<open>What one pass of the reordering does to the axis it works on.\<close>

lemma reorder_axis_ranges:
  assumes ok: "comp_ok c" and d0: "d0 < 3" and a: "a < 3" "a \<noteq> d0"
    and f: "0 \<le> seg_first nd" "seg_first nd \<le> jj" "jj < seg_last nd" and l: "seg_last nd < c_n c"
    and mk: "marked c a (seg_first nd) jj (seg_last nd)"
    and ms: "mset (seg_ids c d0 nd) = mset (seg_ids c a nd)"
  shows "\<exists>Y T. ro_comp (reorder_axis d0 nd c) = c\<lparr>ids := (ids c)[d0 := Y], tmpids := T\<rparr>
    \<and> length T = length (tmpids c) \<and> mset Y = mset (ids c ! d0)
    \<and> leftnum (reorder_axis d0 nd c) = jj - seg_first nd + 1
    \<and> rightnum (reorder_axis d0 nd c) = seg_last nd - jj
    \<and> (\<forall>x y. 0 \<le> x \<and> (y < seg_first nd \<or> seg_last nd < x) \<longrightarrow>
          map (\<lambda>j. Y ! nat j) [x..y] = ids_range c d0 x y)
    \<and> map (\<lambda>j. Y ! nat j) [seg_first nd..jj] = filter (onleft c) (seg_ids c d0 nd)
    \<and> map (\<lambda>j. Y ! nat j) [jj + 1..seg_last nd] = filter (Not \<circ> onleft c) (seg_ids c d0 nd)"
proof -
  let ?f = "seg_first nd" and ?l = "seg_last nd"
  let ?mid = "seg_ids c d0 nd"
  have fl: "?f \<le> ?l" using f by simp
  from reorder_axis_lists[OF ok d0 f(1) fl l]
  obtain Y T where fr: "ro_comp (reorder_axis d0 nd c) = c\<lparr>ids := (ids c)[d0 := Y], tmpids := T\<rparr>"
    and lT: "length T = length (tmpids c)" and mY: "mset Y = mset (ids c ! d0)"
    and ln: "leftnum (reorder_axis d0 nd c) = int (length (filter (onleft c) ?mid))"
    and rn: "rightnum (reorder_axis d0 nd c) = int (length (filter (Not \<circ> onleft c) ?mid))"
    and un: "\<And>i. i < nat ?f \<or> nat ?l < i \<Longrightarrow> Y ! i = ids c ! d0 ! i"
    and m1: "map (\<lambda>j. Y ! nat j) [?f..?f + int (length (filter (onleft c) ?mid)) - 1] = filter (onleft c) ?mid"
    and m2: "map (\<lambda>j. Y ! nat j) [?f + int (length (filter (onleft c) ?mid))..?l] = filter (Not \<circ> onleft c) ?mid"
    by blast
  have f1: "?f \<le> jj + 1" "jj \<le> ?l" using f by simp_all
  from filter_side_mset[OF mk f1, of d0] ms
  have sL: "mset (filter (onleft c) ?mid) = mset (ids_range c a ?f jj)"
    and sR: "mset (filter (Not \<circ> onleft c) ?mid) = mset (ids_range c a (jj + 1) ?l)"
    by (simp_all add: seg_ids_range)
  have nL: "int (length (filter (onleft c) ?mid)) = jj - ?f + 1"
    using mset_eq_length[OF sL] f by simp
  have nR: "int (length (filter (Not \<circ> onleft c) ?mid)) = ?l - jj"
    using mset_eq_length[OF sR] f by simp
  have out: "map (\<lambda>j. Y ! nat j) [x..y] = ids_range c d0 x y" if "0 \<le> x \<and> (y < ?f \<or> ?l < x)" for x y
    unfolding ids_range_def idat_def
  proof (rule map_cong[OF refl])
    fix j assume "j \<in> set [x..y]"
    then have "nat j < nat ?f \<or> nat ?l < nat j" using that f by auto
    then show "Y ! nat j = ids c ! d0 ! nat j" by (rule un)
  qed
  show ?thesis
    using fr lT mY ln rn out m1 m2 unfolding nL nR
    by (intro exI[of _ Y] exI[of _ T]) (simp add: algebra_simps)
qed

lemma side_facts_filter:
  assumes eqL: "ids_range c' d f jj = filter (onleft c) (ids_range c d f l)"
    and eqR: "ids_range c' d (jj + 1) l = filter (Not \<circ> onleft c) (ids_range c d f l)"
    and mk: "marked c a f jj l" and f: "f \<le> jj + 1" "jj \<le> l"
    and ms: "mset (ids_range c d f l) = mset (ids_range c a f l)"
    and so: "sorted (map (sortkey c d) (ids_range c d f l))"
  shows "mset (ids_range c' d f jj) = mset (ids_range c a f jj)"
    "mset (ids_range c' d (jj + 1) l) = mset (ids_range c a (jj + 1) l)"
    "sorted (map (sortkey c d) (ids_range c' d f jj))"
    "sorted (map (sortkey c d) (ids_range c' d (jj + 1) l))"
  using filter_side_mset[OF mk f ms] sorted_filter[OF so]
  by (simp_all add: eqL eqR)

lemma side_facts_same:
  assumes eq: "\<And>x y. ids_range c' a x y = ids_range c a x y"
    and f: "f \<le> jj + 1" "jj \<le> l"
    and so: "sorted (map (sortkey c a) (ids_range c a f l))"
  shows "sorted (map (sortkey c a) (ids_range c' a f jj))"
    "sorted (map (sortkey c a) (ids_range c' a (jj + 1) l))"
  using so unfolding eq ids_range_split[OF f, of c a] by (simp_all add: sorted_append)

lemma two_passes:
  assumes ok: "comp_ok c" and ax: "a < 3" "d1 < 3" "d2 < 3" "a \<noteq> d1" "a \<noteq> d2" "d1 \<noteq> d2"
    and f: "0 \<le> seg_first nd" "seg_first nd \<le> jj" "jj < seg_last nd" and l: "seg_last nd < c_n c"
    and mk: "marked c a (seg_first nd) jj (seg_last nd)"
    and ms: "\<forall>d < 3. mset (seg_ids c d nd) = mset (seg_ids c 0 nd)"
    and so: "\<forall>d < 3. sorted (map (sortkey c d) (seg_ids c d nd))"
  defines "r \<equiv> reorder_axis d2 nd (ro_comp (reorder_axis d1 nd c))"
  shows "(\<exists>I T. ro_comp r = c\<lparr>ids := I, tmpids := T\<rparr>) \<and> comp_ok (ro_comp r)
    \<and> leftnum r = jj - seg_first nd + 1 \<and> rightnum r = seg_last nd - jj
    \<and> sides_ok c (ro_comp r) a (seg_first nd) jj (seg_last nd)"
proof -
  let ?f = "seg_first nd" and ?l = "seg_last nd"
  have l3: "length (ids c) = 3" using ok by (simp add: comp_ok_def)
  have msa: "mset (seg_ids c d nd) = mset (seg_ids c a nd)" if "d < 3" for d
    by (metis ms that ax(1))
  have f1: "?f \<le> jj + 1" "jj \<le> ?l" using f by simp_all
  from reorder_axis_ranges[OF ok ax(2) ax(1) ax(4) f l mk msa[OF ax(2)]]
  obtain Y1 T1 where fr1: "ro_comp (reorder_axis d1 nd c) = c\<lparr>ids := (ids c)[d1 := Y1], tmpids := T1\<rparr>"
    and lT1: "length T1 = length (tmpids c)" and mY1: "mset Y1 = mset (ids c ! d1)"
    and out1: "\<And>x y. 0 \<le> x \<and> (y < ?f \<or> ?l < x) \<Longrightarrow> map (\<lambda>j. Y1 ! nat j) [x..y] = ids_range c d1 x y"
    and L1: "map (\<lambda>j. Y1 ! nat j) [?f..jj] = filter (onleft c) (seg_ids c d1 nd)"
    and R1: "map (\<lambda>j. Y1 ! nat j) [jj + 1..?l] = filter (Not \<circ> onleft c) (seg_ids c d1 nd)"
    by blast
  define c1 where "c1 = c\<lparr>ids := (ids c)[d1 := Y1], tmpids := T1\<rparr>"
  have ok1: "comp_ok c1" unfolding c1_def by (rule comp_ok_ids[OF ok ax(2) mY1 lT1])
  have d1l: "d1 < length (ids c)" "d2 < length (ids c)" using ax l3 by simp_all
  have ir1: "ids_range c1 d x y = ids_range c d x y" if "d \<noteq> d1" for d x y
    unfolding c1_def using ids_range_frame_other[OF d1l(1), of d] that by simp
  have ir1s: "ids_range c1 d1 x y = map (\<lambda>j. Y1 ! nat j) [x..y]" for x y
    unfolding c1_def by (rule ids_range_frame_same[OF d1l(1)])
  have mk1: "marked c1 a ?f jj ?l" unfolding c1_def using marked_frame[OF d1l(1), of a] ax mk by simp
  have cn1: "c_n c1 = c_n c" "onleft c1 = onleft c" "sortkey c1 = sortkey c" "length (ids c1) = 3"
    "tmpids c1 = T1"
    unfolding c1_def using l3 by simp_all
  have ms1: "mset (seg_ids c1 d2 nd) = mset (seg_ids c1 a nd)"
    using msa[OF ax(3)] ax by (simp add: seg_ids_range ir1)
  have l1: "?l < c_n c1" using l cn1 by simp
  from reorder_axis_ranges[OF ok1 ax(3) ax(1) ax(5) f l1 mk1 ms1]
  obtain Y2 T2 where fr2: "ro_comp (reorder_axis d2 nd c1) = c1\<lparr>ids := (ids c1)[d2 := Y2], tmpids := T2\<rparr>"
    and lT2: "length T2 = length (tmpids c1)" and mY2: "mset Y2 = mset (ids c1 ! d2)"
    and ln: "leftnum (reorder_axis d2 nd c1) = jj - ?f + 1"
    and rn: "rightnum (reorder_axis d2 nd c1) = ?l - jj"
    and out2: "\<And>x y. 0 \<le> x \<and> (y < ?f \<or> ?l < x) \<Longrightarrow> map (\<lambda>j. Y2 ! nat j) [x..y] = ids_range c1 d2 x y"
    and L2: "map (\<lambda>j. Y2 ! nat j) [?f..jj] = filter (onleft c1) (seg_ids c1 d2 nd)"
    and R2: "map (\<lambda>j. Y2 ! nat j) [jj + 1..?l] = filter (Not \<circ> onleft c1) (seg_ids c1 d2 nd)"
    by blast
  define c2 where "c2 = c1\<lparr>ids := (ids c1)[d2 := Y2], tmpids := T2\<rparr>"
  have r: "ro_comp r = c2" by (simp add: r_def fr1 fr2 c1_def[symmetric] c2_def)
  have ok2: "comp_ok c2" unfolding c2_def by (rule comp_ok_ids[OF ok1 ax(3) mY2 lT2])
  have d2l: "d2 < length (ids c1)" using cn1 ax by simp
  have ir2: "ids_range c2 d x y = ids_range c1 d x y" if "d \<noteq> d2" for d x y
    unfolding c2_def using ids_range_frame_other[OF d2l, of d] that by simp
  have ir2s: "ids_range c2 d2 x y = map (\<lambda>j. Y2 ! nat j) [x..y]" for x y
    unfolding c2_def by (rule ids_range_frame_same[OF d2l])
  have ex: "\<exists>I T. c2 = c\<lparr>ids := I, tmpids := T\<rparr>"
    unfolding c2_def c1_def by (intro exI[of _ "(ids c)[d1 := Y1, d2 := Y2]"] exI[of _ T2]) simp
  have so': "sorted (map (sortkey c d) (ids_range c d ?f ?l))" if "d < 3" for d
    using so that by (simp add: seg_ids_range)
  have msa': "mset (ids_range c d ?f ?l) = mset (ids_range c a ?f ?l)" if "d < 3" for d
    using msa[OF that] by (simp add: seg_ids_range)
  have A: "mset (ids_range c2 d ?f jj) = mset (ids_range c a ?f jj)
        \<and> mset (ids_range c2 d (jj + 1) ?l) = mset (ids_range c a (jj + 1) ?l)
        \<and> sorted (map (sortkey c d) (ids_range c2 d ?f jj))
        \<and> sorted (map (sortkey c d) (ids_range c2 d (jj + 1) ?l))
        \<and> (\<forall>x y. 0 \<le> x \<and> (y < ?f \<or> ?l < x) \<longrightarrow> ids_range c2 d x y = ids_range c d x y)"
    if d: "d < 3" for d
  proof -
    consider "d = a" | "d = d1" | "d = d2" using d ax by linarith
    then show ?thesis
    proof cases
      case 1
      have eq: "ids_range c2 a x y = ids_range c a x y" for x y using ax by (simp add: ir2 ir1)
      from side_facts_same[of c2 a c, OF eq f1 so'[OF ax(1)]] show ?thesis
        unfolding 1 by (simp add: eq)
    next
      case 2
      have eq: "ids_range c2 d1 x y = map (\<lambda>j. Y1 ! nat j) [x..y]" for x y using ax by (simp add: ir2 ir1s)
      have eL: "ids_range c2 d1 ?f jj = filter (onleft c) (ids_range c d1 ?f ?l)"
        and eR: "ids_range c2 d1 (jj + 1) ?l = filter (Not \<circ> onleft c) (ids_range c d1 ?f ?l)"
        using L1 R1 by (simp_all add: eq seg_ids_range)
      from side_facts_filter[OF eL eR mk f1 msa'[OF ax(2)] so'[OF ax(2)]] out1 show ?thesis
        unfolding 2 by (simp add: eq)
    next
      case 3
      have eL: "ids_range c2 d2 ?f jj = filter (onleft c) (ids_range c d2 ?f ?l)"
        and eR: "ids_range c2 d2 (jj + 1) ?l = filter (Not \<circ> onleft c) (ids_range c d2 ?f ?l)"
        using L2 R2 ax by (simp_all add: ir2s seg_ids_range cn1 ir1)
      have "ids_range c2 d2 x y = ids_range c d2 x y" if "0 \<le> x \<and> (y < ?f \<or> ?l < x)" for x y
        using out2[OF that] ax by (simp add: ir2s ir1)
      with side_facts_filter[OF eL eR mk f1 msa'[OF ax(3)] so'[OF ax(3)]] show ?thesis
        unfolding 3 by simp
    qed
  qed
  show ?thesis
    unfolding r sides_ok_def using ex ok2 A ln rn
    by (simp add: r_def fr1 c1_def[symmetric])
qed

lemma reorder_spec:
  assumes ok: "comp_ok c" and ax: "part_axis best < 3"
    and f: "0 \<le> seg_first nd" "seg_first nd \<le> jj" "jj < seg_last nd" and l: "seg_last nd < c_n c"
    and mk: "marked c (part_axis best) (seg_first nd) jj (seg_last nd)"
    and ms: "\<forall>d < 3. mset (seg_ids c d nd) = mset (seg_ids c 0 nd)"
    and so: "\<forall>d < 3. sorted (map (sortkey c d) (seg_ids c d nd))"
  shows "(\<exists>I T. ro_comp (reorder best nd c) = c\<lparr>ids := I, tmpids := T\<rparr>)
    \<and> comp_ok (ro_comp (reorder best nd c))
    \<and> leftnum (reorder best nd c) = jj - seg_first nd + 1
    \<and> rightnum (reorder best nd c) = seg_last nd - jj
    \<and> sides_ok c (ro_comp (reorder best nd c)) (part_axis best) (seg_first nd) jj (seg_last nd)"
proof -
  have u: "[0..<2] = [0, Suc 0]" by (simp add: upt_rec)
  have re: "reorder best nd c
      = reorder_axis (otheraxis ! (part_axis best + 1)) nd
          (ro_comp (reorder_axis (otheraxis ! part_axis best) nd c))"
    unfolding reorder_def OTHERAXISNUM_def u by (simp add: reorder_other_def)
  consider "part_axis best = 0" | "part_axis best = 1" | "part_axis best = 2" using ax by linarith
  then show ?thesis
  proof cases
    case 1
    have o: "otheraxis ! (part_axis best + 1) = 2" "otheraxis ! part_axis best = 1"
      by (simp_all add: 1 otheraxis_def)
    show ?thesis unfolding re o
      using two_passes[OF ok _ _ _ _ _ _ f l mk ms so, of 1 2] by (simp add: 1)
  next
    case 2
    have o: "otheraxis ! (part_axis best + 1) = 0" "otheraxis ! part_axis best = 2"
      by (simp_all add: 2 otheraxis_def)
    show ?thesis unfolding re o
      using two_passes[OF ok _ _ _ _ _ _ f l mk ms so, of 2 0] by (simp add: 2)
  next
    case 3
    have o: "otheraxis ! (part_axis best + 1) = 1" "otheraxis ! part_axis best = 0"
      by (simp_all add: 3 otheraxis_def numeral_3_eq_3)
    show ?thesis unfolding re o
      using two_passes[OF ok _ _ _ _ _ _ f l mk ms so, of 0 1] by (simp add: 3)
  qed
qed

subsection \<open>Emitting nodes\<close>

lemma makenode_spec:
  assumes "seg_id nd < length (root c)"
  shows "makenode c nd ax = Inr (c\<lparr>root := (root c)[seg_id nd := (root c ! seg_id nd)
            \<lparr>n_box := seg_box nd, n_flag := NONLEAF, n_axis := ax,
             n_offset := u32_sub (currid c + 1) (seg_id nd)\<rparr>],
          nodenum := nodenum c + 1\<rparr>)"
  using assms by (simp add: makenode_def)

lemma u32_sub_exact: "b \<le> a \<Longrightarrow> a < 2 ^ 32 \<Longrightarrow> u32_sub a b = a - b"
proof -
  assume a: "b \<le> a" "a < 2 ^ 32"
  then have "0 \<le> int a - int b" "int a - int b < 2 ^ 32" by auto
  then have "(int a - int b) mod 2 ^ 32 = int a - int b" by simp
  then show ?thesis using a by (simp add: u32_sub_def)
qed

lemma leaf_fold_spec:
  assumes tri: "\<forall>k. f \<le> k \<and> k \<le> l \<longrightarrow> ptype (prims c ! idat c 0 k) = TRI"
    and f: "f \<le> l + 1" and a0: "0 \<le> accnum c" and al: "accnum c + (l - f + 1) \<le> int (length (acc c))"
  shows "\<exists>A. fold (leaf_step n) [f..l] (Inr c) = Inr (c\<lparr>acc := A, accnum := accnum c + (l - f + 1)\<rparr>)
    \<and> length A = length (acc c)
    \<and> (\<forall>k. f \<le> k \<and> k \<le> l \<longrightarrow> w_num (A ! nat (accnum c + (k - f))) = n
          \<and> w_id (A ! nat (accnum c + (k - f))) = idat c 0 k)"
proof -
  define P where "P = (\<lambda>j (r :: fault + compiler). \<exists>A. r = Inr (c\<lparr>acc := A, accnum := accnum c + (j - f)\<rparr>)
    \<and> length A = length (acc c)
    \<and> (\<forall>k. f \<le> k \<and> k < j \<longrightarrow> w_num (A ! nat (accnum c + (k - f))) = n
          \<and> w_id (A ! nat (accnum c + (k - f))) = idat c 0 k))"
  have init: "P f (Inr c)" unfolding P_def by (intro exI[of _ "acc c"]) simp
  have step: "P (j + 1) (leaf_step n j r)" if j: "f \<le> j" "j \<le> l" and p: "P j r" for j r
  proof -
    from p obtain A where r: "r = Inr (c\<lparr>acc := A, accnum := accnum c + (j - f)\<rparr>)"
      and lA: "length A = length (acc c)"
      and v: "\<And>k. f \<le> k \<and> k < j \<Longrightarrow> w_num (A ! nat (accnum c + (k - f))) = n
          \<and> w_id (A ! nat (accnum c + (k - f))) = idat c 0 k"
      unfolding P_def by blast
    let ?i = "idat c 0 j"
    let ?w = "(maketriangle (prims c ! ?i) (A ! nat (accnum c + (j - f))) ?i 0)\<lparr>w_num := n\<rparr>"
    have t: "ptype (prims c ! ?i) = TRI" using tri j by simp
    have id: "idat (c\<lparr>acc := A, accnum := accnum c + (j - f)\<rparr>) 0 j = ?i" by (simp add: idat_def)
    have ls: "leaf_step n j r = Inr (c\<lparr>acc := A[nat (accnum c + (j - f)) := ?w], accnum := accnum c + (j + 1 - f)\<rparr>)"
      unfolding r leaf_step_def using t by (simp add: id Let_def)
    have bound: "nat (accnum c + (j - f)) < length A" using j a0 al lA by linarith
    have wn: "w_num ?w = n" "w_id ?w = ?i" by (simp_all add: maketriangle_def Let_def)
    show ?thesis unfolding P_def
    proof (rule exI[of _ "A[nat (accnum c + (j - f)) := ?w]"], intro conjI allI impI)
      show "leaf_step n j r = Inr (c\<lparr>acc := A[nat (accnum c + (j - f)) := ?w], accnum := accnum c + (j + 1 - f)\<rparr>)"
        by (rule ls)
      show "length (A[nat (accnum c + (j - f)) := ?w]) = length (acc c)" by (simp add: lA)
      fix k assume k: "f \<le> k \<and> k < j + 1"
      show "w_num (A[nat (accnum c + (j - f)) := ?w] ! nat (accnum c + (k - f))) = n"
      proof (cases "k = j")
        case True then show ?thesis using bound wn by simp
      next
        case False
        then have "nat (accnum c + (k - f)) \<noteq> nat (accnum c + (j - f))" using k a0 by linarith
        then show ?thesis using v[of k] k False by simp
      qed
      show "w_id (A[nat (accnum c + (j - f)) := ?w] ! nat (accnum c + (k - f))) = idat c 0 k"
      proof (cases "k = j")
        case True then show ?thesis using bound wn by simp
      next
        case False
        then have "nat (accnum c + (k - f)) \<noteq> nat (accnum c + (j - f))" using k a0 by linarith
        then show ?thesis using v[of k] k False by simp
      qed
    qed
  qed
  have "P (l + 1) (fold (leaf_step n) [f..l] (Inr c))"
    by (rule fold_upto_rule[where P = P, OF init step]) (use f in auto)
  then obtain A where A: "fold (leaf_step n) [f..l] (Inr c) = Inr (c\<lparr>acc := A, accnum := accnum c + (l + 1 - f)\<rparr>)"
    "length A = length (acc c)"
    "\<And>k. f \<le> k \<and> k < l + 1 \<Longrightarrow> w_num (A ! nat (accnum c + (k - f))) = n
          \<and> w_id (A ! nat (accnum c + (k - f))) = idat c 0 k"
    unfolding P_def by blast
  have e: "l + 1 - f = l - f + 1" by simp
  show ?thesis
    by (rule exI[of _ A]) (use A in \<open>simp add: e\<close>)
qed

lemma makeleaf_spec:
  assumes idr: "seg_id nd < length (root c)" and f: "seg_first nd \<le> seg_last nd"
    and a0: "0 \<le> accnum c" and al: "accnum c + int (seg_size nd) \<le> int (length (acc c))"
    and kind: "(seg_size nd = 1 \<and> ptype (prims c ! idat c 0 (seg_first nd)) = INTERSECTOR)
        \<or> (\<forall>i \<in> set (seg_ids c 0 nd). ptype (prims c ! i) = TRI)"
  shows "\<exists>c'. makeleaf c nd = Inr c' \<and> leaf_frame c nd c' \<and> leaf_content c nd c'"
proof (cases "ptype (prims c ! idat c 0 (seg_first nd)) = INTERSECTOR")
  case True
  have "idat c 0 (seg_first nd) \<in> set (seg_ids c 0 nd)" using f by (simp add: seg_ids_def)
  then have one: "seg_size nd = 1" using kind True by auto
  then have n: "seg_last nd - seg_first nd + 1 = 1" using f by (simp add: seg_size_def)
  let ?c' = "c\<lparr>root := (root c)[seg_id nd := (root c ! seg_id nd)\<lparr>n_box := seg_box nd, n_flag := ISECLEAF,
        n_ptr := ISECPTR (isec (prims c ! idat c 0 (seg_first nd)))\<rparr>],
      leafnum := leafnum c + 1, nodenum := nodenum c + 1\<rparr>"
  have m: "makeleaf c nd = Inr ?c'"
    using idr True n by (simp add: makeleaf_def Let_def)
  have "leaf_frame c nd ?c'" by (simp add: leaf_frame_def)
  moreover have "leaf_content c nd ?c'" using one True idr by (simp add: leaf_content_def)
  ultimately show ?thesis using m by blast
next
  case False
  have "idat c 0 (seg_first nd) \<in> set (seg_ids c 0 nd)" using f by (simp add: seg_ids_def)
  then have tri: "\<forall>i \<in> set (seg_ids c 0 nd). ptype (prims c ! i) = TRI" using kind False by auto
  let ?x = "(root c ! seg_id nd)\<lparr>n_box := seg_box nd, n_flag := TRILEAF, n_ptr := ACCPTR (nat (accnum c))\<rparr>"
  let ?c0 = "c\<lparr>root := (root c)[seg_id nd := ?x]\<rparr>"
  let ?n = "seg_last nd - seg_first nd + 1"
  have sz: "int (seg_size nd) = ?n" using f by (simp add: seg_size_def)
  have t0: "\<forall>k. seg_first nd \<le> k \<and> k \<le> seg_last nd \<longrightarrow> ptype (prims ?c0 ! idat ?c0 0 k) = TRI"
    using tri by (auto simp: seg_ids_def idat_def)
  have f1: "seg_first nd \<le> seg_last nd + 1" using f by simp
  from leaf_fold_spec[of "seg_first nd" "seg_last nd" ?c0 ?n, OF t0 f1] a0 al sz
  obtain A where A: "fold (leaf_step ?n) [seg_first nd..seg_last nd] (Inr ?c0)
        = Inr (?c0\<lparr>acc := A, accnum := accnum c + ?n\<rparr>)"
      "length A = length (acc c)"
      "\<And>k. seg_first nd \<le> k \<and> k \<le> seg_last nd \<Longrightarrow> w_num (A ! nat (accnum c + (k - seg_first nd))) = ?n
          \<and> w_id (A ! nat (accnum c + (k - seg_first nd))) = idat c 0 k"
    by (auto simp: idat_def)
  let ?c' = "c\<lparr>root := (root c)[seg_id nd := ?x], acc := A, accnum := accnum c + ?n,
      leafnum := leafnum c + 1, nodenum := nodenum c + 1\<rparr>"
  have m: "makeleaf c nd = Inr ?c'"
    using idr False A(1) by (simp add: makeleaf_def Let_def)
  have "leaf_frame c nd ?c'" using A(2) by (simp add: leaf_frame_def)
  moreover have "leaf_content c nd ?c'"
  proof -
    have "w_num (A ! (nat (accnum c) + k)) = int (seg_size nd)
        \<and> w_id (A ! (nat (accnum c) + k)) = seg_ids c 0 nd ! k" if k: "k < seg_size nd" for k
    proof -
      have r: "seg_first nd \<le> seg_first nd + int k \<and> seg_first nd + int k \<le> seg_last nd"
        using k sz by linarith
      have i: "nat (accnum c + int k) = nat (accnum c) + k"
        using a0 by (simp add: nat_add_distrib)
      have "seg_ids c 0 nd ! k = idat c 0 (seg_first nd + int k)"
        using k sz by (simp add: seg_ids_range nth_ids_range seg_size_def)
      then show ?thesis using A(3)[OF r] sz by (simp add: i)
    qed
    then show ?thesis using tri idr sz unfolding leaf_content_def by simp
  qed
  ultimately show ?thesis using m by blast
qed

subsection \<open>The candidate of the sweep\<close>






section \<open>The claims\<close>

subsection \<open>Empty input\<close>

text \<open>
  C9: with \<open>n = 0\<close>, \<open>create\<close> returns at once: the result is the null pointer, it is
  not a fault, and no tree (node array, triangle array) is handed to the caller, whatever
  the primitive pointer and the options are.
\<close>

theorem create_empty_input: "create cfg ps 0 = Some (Inr None)"
  by (simp add: create_def)

subsection \<open>The sweep keeps the last of the cheapest positions\<close>




subsection \<open>When the sweep proposes a leaf\<close>

text \<open>
  C8: for a range of more than one primitive and options in their declared ranges,
  \<open>range_boxes c axis first last'\<close> being the boxes of the primitives listed in
  \<^verbatim>\<open>ids[axis][first..last]\<close>. If all of them are triangles, the sweep returns the leaf
  sentinel (both ranges \<open>(-1, -1)\<close>, both boxes the union box of the range) exactly when
  the range has at most \<open>maxprimitivenum\<close> primitives and the leaf cost is at most the
  weighted cost of the best split; both costs and their comparison are the binary32
  computations of the code. If one of the primitives is not a triangle, the split
  candidate found by the scan is returned as it is.
\<close>

theorem sweep_leaf_rule:
  assumes "0 \<le> first" "first < last'" "config_ok cfg"
  shows "((\<forall>k. first \<le> k \<and> k \<le> last' \<longrightarrow> istri c ! idat c axis k) \<longrightarrow>
      ((part_first (fst (sweep cfg axis c first last')) = [-1, -1]
         \<and> part_last (fst (sweep cfg axis c first last')) = [-1, -1]
         \<and> part_boxes (fst (sweep cfg axis c first last'))
             = [box_union (range_boxes c axis first last'), box_union (range_boxes c axis first last')])
       \<longleftrightarrow>
       (last' - first + 1 \<le> maxprimitivenum cfg
         \<and> fle (fmul (i2f (sahintersectioncost cfg * (last' - first + 1)))
                  (halfarea (box_union (range_boxes c axis first last'))))
               (fadd (fmul (part_cost (sw_part (sweep_scan axis (inclusion axis c first last') first last')))
                        (i2f (sahintersectioncost cfg)))
                  (fmul (i2f (sahtraversalcost cfg))
                     (halfarea (box_union (range_boxes c axis first last'))))))))
    \<and> ((\<exists>k. first \<le> k \<and> k \<le> last' \<and> \<not> istri c ! idat c axis k) \<longrightarrow>
        fst (sweep cfg axis c first last')
          = sw_part (sweep_scan axis (inclusion axis c first last') first last'))"
proof -
  let ?c1 = "inclusion axis c first last'"
  let ?st = "sweep_scan axis ?c1 first last'"
  let ?U = "box_union (range_boxes c axis first last')"
  have fl: "first \<le> last'" using assms by simp
  from scan_basic[OF fl, of axis ?c1 last']
  have b: "sw_box ?st = box_union (range_boxes c axis first (last' - 1))"
    and t: "sw_alltris ?st = (\<forall>k. first \<le> k \<and> k < last' \<longrightarrow> istri c ! idat c axis k)"
    and pf: "part_first (sw_part ?st) ! 0 = first"
    by (simp_all add: sweep_scan_upto)
  have full: "compose (sw_box ?st) (boxes c ! idat c axis last') = ?U"
    using fl by (simp add: b range_boxes_rec2[of first last'] box_union_snoc)
  have all: "(\<forall>k. first \<le> k \<and> k \<le> last' \<longrightarrow> istri c ! idat c axis k)
      \<longleftrightarrow> sw_alltris ?st \<and> istri c ! idat c axis last'"
    unfolding t using fl by (auto simp: less_le)
  have ne: "part_first (sw_part ?st) \<noteq> [-1, -1]" using pf assms by auto
  have tl: "istri ?c1 ! idat ?c1 axis last' = istri c ! idat c axis last'" by simp
  have p2: "fst (sweep cfg axis c first last') = sw_part ?st"
    if "\<exists>k. first \<le> k \<and> k \<le> last' \<and> \<not> istri c ! idat c axis k"
  proof -
    from that all have "\<not> sw_alltris ?st \<or> \<not> istri c ! idat c axis last'" by blast
    then show ?thesis unfolding sweep_def Let_def tl by auto
  qed
  have p1: "(part_first (fst (sweep cfg axis c first last')) = [-1, -1]
         \<and> part_last (fst (sweep cfg axis c first last')) = [-1, -1]
         \<and> part_boxes (fst (sweep cfg axis c first last')) = [?U, ?U])
       \<longleftrightarrow>
       (last' - first + 1 \<le> maxprimitivenum cfg
         \<and> fle (fmul (i2f (sahintersectioncost cfg * (last' - first + 1))) (halfarea ?U))
               (fadd (fmul (part_cost (sw_part ?st)) (i2f (sahintersectioncost cfg)))
                  (fmul (i2f (sahtraversalcost cfg)) (halfarea ?U))))"
    if "\<forall>k. first \<le> k \<and> k \<le> last' \<longrightarrow> istri c ! idat c axis k"
  proof -
    from that all have a: "sw_alltris ?st" "istri c ! idat c axis last'" by blast+
    have bx: "boxes ?c1 ! idat ?c1 axis last' = boxes c ! idat c axis last'" by simp
    show ?thesis unfolding sweep_def Let_def tl bx full using a ne
      by (auto simp: leaf_partition_def)
  qed
  show ?thesis using p1 p2 by blast
qed

text \<open>
  Two unit triangles side by side under the default options: two primitives are at
  most eight, the leaf cost \<open>(4 * 2) * 2 = 16\<close> is at most \<open>2 * 4 + 4 * 2 = 16\<close>, and
  the sweep on axis 0 returns the leaf sentinel.
\<close>

theorem sweep_leaf_rule_witness:
  "(0::int) \<le> 0 \<and> (0::int) < 1 \<and> config_ok default_config
   \<and> istri (build [unit_tri 0, unit_tri 1]) ! idat (build [unit_tri 0, unit_tri 1]) 0 0
   \<and> istri (build [unit_tri 0, unit_tri 1]) ! idat (build [unit_tri 0, unit_tri 1]) 0 1
   \<and> part_first (fst (sweep default_config 0 (build [unit_tri 0, unit_tri 1]) 0 1)) = [-1, -1]
   \<and> part_last (fst (sweep default_config 0 (build [unit_tri 0, unit_tri 1]) 0 1)) = [-1, -1]
   \<and> part_boxes (fst (sweep default_config 0 (build [unit_tri 0, unit_tri 1]) 0 1))
       = [box_union (range_boxes (build [unit_tri 0, unit_tri 1]) 0 0 1),
          box_union (range_boxes (build [unit_tri 0, unit_tri 1]) 0 0 1)]"
proof -
  let ?c = "build [unit_tri 0, unit_tri 1]"
  have a: "(0::int) \<le> 0" and b: "(0::int) < 1" by simp_all
  have cf: "config_ok default_config" by (simp add: config_ok_def default_config_def)
  have t0: "istri ?c ! idat ?c 0 0" by code_simp
  have t1: "istri ?c ! idat ?c 0 1" by code_simp
  have tris: "\<forall>k. 0 \<le> k \<and> k \<le> 1 \<longrightarrow> istri ?c ! idat ?c 0 k"
  proof (intro allI impI)
    fix k :: int assume "0 \<le> k \<and> k \<le> 1"
    then have "k = 0 \<or> k = 1" by auto
    then show "istri ?c ! idat ?c 0 k" using t0 t1 by auto
  qed
  have n: "(1::int) - 0 + 1 \<le> maxprimitivenum default_config" by (simp add: default_config_def)
  have le: "fle (fmul (i2f (sahintersectioncost default_config * (1 - 0 + 1)))
                  (halfarea (box_union (range_boxes ?c 0 0 1))))
               (fadd (fmul (part_cost (sw_part (sweep_scan 0 (inclusion 0 ?c 0 1) 0 1)))
                        (i2f (sahintersectioncost default_config)))
                  (fmul (i2f (sahtraversalcost default_config))
                     (halfarea (box_union (range_boxes ?c 0 0 1)))))"
    by code_simp
  from sweep_leaf_rule[OF a b cf, of ?c 0] tris n le
  have "part_first (fst (sweep default_config 0 ?c 0 1)) = [-1, -1]
         \<and> part_last (fst (sweep default_config 0 ?c 0 1)) = [-1, -1]
         \<and> part_boxes (fst (sweep default_config 0 ?c 0 1))
             = [box_union (range_boxes ?c 0 0 1), box_union (range_boxes ?c 0 0 1)]"
    by blast
  with a b cf t0 t1 show ?thesis by blast
qed

end
